theory Spec2Isabelle
  imports Complex_Main "HOL-Library.Sublist"
begin

section \<open>Python strings\<close>

text \<open>
  A Python \<open>str\<close> is modelled as a \<open>string\<close> of ASCII characters. The whitespace
  characters are the ASCII ones for which \<open>str.isspace\<close> holds; \<open>str.lower\<close> maps
  \<open>A..Z\<close> to \<open>a..z\<close> and leaves every other character alone.
\<close>

definition is_space :: "char \<Rightarrow> bool" where
  "is_space c = (c \<in> set [CHR 0x09, CHR 0x0A, CHR 0x0B, CHR 0x0C, CHR 0x0D,
                            CHR 0x1C, CHR 0x1D, CHR 0x1E, CHR 0x1F, CHR 0x20])"

definition lower_char :: "char \<Rightarrow> char" where
  "lower_char c =
     (case map_of (zip ''ABCDEFGHIJKLMNOPQRSTUVWXYZ'' ''abcdefghijklmnopqrstuvwxyz'') c of
        Some l \<Rightarrow> l
      | None \<Rightarrow> c)"

definition lower :: "string \<Rightarrow> string" where
  "lower s = map lower_char s"

definition strip :: "string \<Rightarrow> string" where
  "strip s = rev (dropWhile is_space (rev (dropWhile is_space s)))"

text \<open>
  \<open>s.split()\<close> without arguments: the maximal runs of non-whitespace characters, in
  order; no token is empty. \<open>split_from cur s\<close> scans \<open>s\<close> with the token read so far
  in \<open>cur\<close>.
\<close>

fun split_from :: "string \<Rightarrow> string \<Rightarrow> string list" where
  "split_from cur [] = (if cur = [] then [] else [cur])"
| "split_from cur (c # cs) =
     (if is_space c then (if cur = [] then split_from [] cs else cur # split_from [] cs)
      else split_from (cur @ [c]) cs)"

definition split :: "string \<Rightarrow> string list" where
  "split s = split_from [] s"

section \<open>Python dictionaries\<close>

text \<open>
  A \<open>dict\<close> keeps its keys in insertion order, and both scorers iterate over one, so
  it is an association list. Assigning to a key that is present replaces the value in
  place; assigning to a new key appends it.
\<close>

type_synonym ('k, 'v) dict = "('k \<times> 'v) list"

definition dict_set :: "('k, 'v) dict \<Rightarrow> 'k \<Rightarrow> 'v \<Rightarrow> ('k, 'v) dict" where
  "dict_set d k v =
     (if k \<in> set (map fst d) then map (\<lambda>(k', v'). if k' = k then (k', v) else (k', v')) d
      else d @ [(k, v)])"

definition dict_get :: "('k, 'v) dict \<Rightarrow> 'k \<Rightarrow> 'v option" where
  "dict_get d k = map_of d k"

section \<open>DataLoader\<close>

text \<open>
  A CSV file is the list of rows \<open>csv.DictReader\<close> yields (a row maps a column name to
  the cell's text), or \<open>None\<close> when the path does not exist. The two class attributes
  \<open>_users_cache\<close> and \<open>_transactions_cache\<close>, and \<open>SemanticSearcher._model\<close>, are
  the process state.
\<close>

type_synonym row = "string \<rightharpoonup> string"

record files =
  users_csv :: "row list option"
  transactions_csv :: "row list option"

record state =
  users_cache :: "(string, string) dict option"
  transactions_cache :: "(string, string) dict option"
  model_loaded :: bool

text \<open>
  The reading loop: a row with both columns stores \<open>row[key]\<close> under \<open>row['id']\<close>
  (a row that has the column \<open>id\<close> is not empty, so the test \<open>if row\<close> adds nothing).
\<close>

definition load_rows :: "string \<Rightarrow> row list \<Rightarrow> (string, string) dict" where
  "load_rows col rows =
     fold (\<lambda>r cache. case (r ''id'', r col) of
                        (Some i, Some v) \<Rightarrow> dict_set cache i v
                      | _ \<Rightarrow> cache) rows []"

definition get_users :: "files \<Rightarrow> state \<Rightarrow> (string, string) dict \<times> state" where
  "get_users fs s =
     (case users_cache s of
        Some cache \<Rightarrow> (cache, s)
      | None \<Rightarrow>
          (let cache = (case users_csv fs of None \<Rightarrow> [] | Some rows \<Rightarrow> load_rows ''name'' rows)
           in (cache, s\<lparr>users_cache := Some cache\<rparr>)))"

definition get_transactions :: "files \<Rightarrow> state \<Rightarrow> (string, string) dict \<times> state" where
  "get_transactions fs s =
     (case transactions_cache s of
        Some cache \<Rightarrow> (cache, s)
      | None \<Rightarrow>
          (let cache = (case transactions_csv fs of None \<Rightarrow> []
                        | Some rows \<Rightarrow> load_rows ''description'' rows)
           in (cache, s\<lparr>transactions_cache := Some cache\<rparr>)))"

section \<open>Scores\<close>

text \<open>
  A Python \<open>float\<close> is modelled as an exact \<open>real\<close>: the arithmetic of the scores is
  the source's, without the rounding error of IEEE arithmetic. \<open>round(x, 2)\<close> rounds
  to the nearest multiple of \<open>0.01\<close>, a tie going to the even one.
\<close>

definition round_half_even :: "real \<Rightarrow> int" where
  "round_half_even x =
     (let f = \<lfloor>x\<rfloor>; d = x - of_int f
      in if d < 1/2 then f else if 1/2 < d then f + 1 else if even f then f else f + 1)"

definition round2 :: "real \<Rightarrow> real" where
  "round2 x = of_int (round_half_even (x * 100)) / 100"

text \<open>
  \<open>sorted(d.items(), key=lambda x: x[1], reverse=True)\<close>: a stable sort by value,
  largest first; items with equal values keep the order of the dictionary.
\<close>

definition sorted_desc :: "('k, real) dict \<Rightarrow> ('k \<times> real) list" where
  "sorted_desc d = sort_key (\<lambda>x. - snd x) d"

section \<open>UserMatcher\<close>

text \<open>
  \<open>fuzz.token_sort_ratio\<close> belongs to the library \<open>rapidfuzz\<close>; it is a parameter
  \<open>tsr\<close> of the model, a function from two strings to a number between 0 and 100.
\<close>

type_synonym ratio_fn = "string \<Rightarrow> string \<Rightarrow> real"

definition FUZZY_MATCH_THRESHOLD :: real where
  "FUZZY_MATCH_THRESHOLD = 70"

text \<open>The inner loop of strategy 4, started at \<open>best_token_score = 0\<close>.\<close>

definition best_token_score :: "ratio_fn \<Rightarrow> string \<Rightarrow> string list \<Rightarrow> real" where
  "best_token_score tsr user_name_lower tokens =
     fold (\<lambda>token best. let token_score = tsr user_name_lower token / 100
                         in if token_score > best then token_score else best) tokens 0"

text \<open>
  The body of the loop over \<open>users.items()\<close>: the score stored in \<open>matches\<close> for one
  user, or \<open>None\<close> when no strategy stores one.
\<close>

definition user_score :: "ratio_fn \<Rightarrow> string \<Rightarrow> string list \<Rightarrow> string \<Rightarrow> real option" where
  "user_score tsr description tokens user_name =
     (let user_name_lower = lower (strip user_name) in
      if user_name_lower = description then Some 1
      else if user_name_lower \<in> set tokens then Some (95 / 100)
      else if sublist user_name_lower description then
        (let ratio = real (length user_name_lower) / real (length description)
         in Some (85 / 100 + ratio * (1 / 10)))
      else
        (let best = best_token_score tsr user_name_lower tokens in
         if best \<ge> FUZZY_MATCH_THRESHOLD / 100 then Some best
         else
           (let full_score = tsr user_name_lower description / 100 in
            if full_score \<ge> FUZZY_MATCH_THRESHOLD / 100 then Some full_score else None)))"

definition match_loop ::
  "ratio_fn \<Rightarrow> string \<Rightarrow> string list \<Rightarrow> (string, string) dict \<Rightarrow> (string, real) dict
     \<Rightarrow> (string, real) dict" where
  "match_loop tsr description tokens users matches =
     fold (\<lambda>(user_id, user_name) m.
             case user_score tsr description tokens user_name of
               Some score \<Rightarrow> dict_set m user_id score
             | None \<Rightarrow> m) users matches"

record UserMatch =
  user_id :: string
  match_metric :: real

text \<open>\<open>match_users\<close> after its two calls of the loader.\<close>

definition match_users_body ::
  "ratio_fn \<Rightarrow> (string, string) dict \<Rightarrow> (string, string) dict \<Rightarrow> string
     \<Rightarrow> UserMatch list \<times> nat" where
  "match_users_body tsr transactions users transaction_id =
     (case dict_get transactions transaction_id of
        None \<Rightarrow> ([], 0)
      | Some raw \<Rightarrow>
          (let description = lower (strip raw) in
           if description = [] \<or> users = [] then ([], 0)
           else
             (let tokens = split description;
                  matches = match_loop tsr description tokens users [];
                  sorted_matches = sorted_desc matches;
                  result = map (\<lambda>(uid, score).
                                  \<lparr>user_id = uid, match_metric = round2 score\<rparr>) sorted_matches
              in (result, length result))))"

definition match_users ::
  "ratio_fn \<Rightarrow> files \<Rightarrow> state \<Rightarrow> string \<Rightarrow> (UserMatch list \<times> nat) \<times> state" where
  "match_users tsr fs s transaction_id =
     (let (transactions, s1) = get_transactions fs s;
          (users, s2) = get_users fs s1
      in (match_users_body tsr transactions users transaction_id, s2))"

section \<open>SemanticSearcher\<close>

text \<open>
  The sentence-transformer model is a parameter \<open>encode\<close>, a function from a text to
  its vector. \<open>np.dot\<close> of two one-dimensional arrays raises \<open>ValueError\<close> when their
  lengths differ; \<open>np.linalg.norm\<close> is the Euclidean norm.
\<close>

datatype error = ValueError

type_synonym encode_fn = "string \<Rightarrow> real list"

definition np_dot :: "real list \<Rightarrow> real list \<Rightarrow> error + real" where
  "np_dot xs ys =
     (if length xs = length ys then Inr (sum_list (map2 (*) xs ys)) else Inl ValueError)"

definition np_norm :: "real list \<Rightarrow> real" where
  "np_norm xs = sqrt (sum_list (map (\<lambda>x. x * x) xs))"

definition normalize_similarity :: "real \<Rightarrow> real" where
  "normalize_similarity similarity = (similarity + 1) / 2"

text \<open>
  The same line as Python evaluates it. In binary floating point every operation returns
  the representable number nearest to the exact result, a tie going to the even
  significand. \<open>float_round p\<close> is this rounding for a significand of \<open>p\<close> bits (53
  for \<open>float\<close> and \<open>numpy.float64\<close>, 24 for \<open>numpy.float32\<close>), with an unbounded
  exponent: for a cosine similarity neither the addition nor the halving overflows or
  gives a subnormal number.
\<close>

definition float_exponent :: "nat \<Rightarrow> real \<Rightarrow> int" where
  "float_exponent p x = \<lfloor>log 2 \<bar>x\<bar>\<rfloor> - int p + 1"

definition float_round :: "nat \<Rightarrow> real \<Rightarrow> real" where
  "float_round p x =
     (if x = 0 then 0
      else of_int (round_half_even (x / 2 powr of_int (float_exponent p x)))
             * 2 powr of_int (float_exponent p x))"

definition normalize_similarity_float :: "nat \<Rightarrow> real \<Rightarrow> real" where
  "normalize_similarity_float p similarity = float_round p (float_round p (similarity + 1) / 2)"

fun search_loop ::
  "real \<Rightarrow> real list \<Rightarrow> (string \<times> real list) list \<Rightarrow> (string, real) dict
     \<Rightarrow> error + (string, real) dict" where
  "search_loop threshold query_embedding [] matches = Inr matches"
| "search_loop threshold query_embedding ((trans_id, e) # rest) matches =
     (case np_dot query_embedding e of
        Inl err \<Rightarrow> Inl err
      | Inr d \<Rightarrow>
          (let similarity = d / (np_norm query_embedding * np_norm e + 1 / 10 ^ 10);
               normalized_similarity = normalize_similarity similarity
           in search_loop threshold query_embedding rest
                (if normalized_similarity > threshold
                 then dict_set matches trans_id (round2 normalized_similarity)
                 else matches)))"

text \<open>
  The value of \<open>normalized_similarity\<close> in the loop above, for the query vector and
  one description vector of the same length.
\<close>

definition similarity_score :: "real list \<Rightarrow> real list \<Rightarrow> real" where
  "similarity_score query_embedding e =
     normalize_similarity
       (sum_list (map2 (*) query_embedding e)
          / (np_norm query_embedding * np_norm e + 1 / 10 ^ 10))"

record TransactionMatch =
  trans_id :: string
  embedding :: real

text \<open>
  \<open>search_transactions\<close> after its call of the loader. The keys of a dictionary are
  distinct, so \<open>[transactions[tid] for tid in transaction_ids]\<close> is the list of its
  values in order.
\<close>

definition search_transactions_body ::
  "encode_fn \<Rightarrow> real \<Rightarrow> (string, string) dict \<Rightarrow> string
     \<Rightarrow> error + (TransactionMatch list \<times> nat)" where
  "search_transactions_body encode threshold transactions query =
     (if transactions = [] then Inr ([], 0)
      else
        (let query_embedding = encode query;
             tokens_used = length (split query);
             transaction_ids = map fst transactions;
             descriptions = map snd transactions;
             description_embeddings = map encode descriptions
         in case search_loop threshold query_embedding
                   (zip transaction_ids description_embeddings) [] of
              Inl err \<Rightarrow> Inl err
            | Inr matches \<Rightarrow>
                Inr (map (\<lambda>(tid, score). \<lparr>trans_id = tid, embedding = score\<rparr>)
                       (sorted_desc matches), tokens_used)))"

definition search_transactions ::
  "encode_fn \<Rightarrow> real \<Rightarrow> files \<Rightarrow> state \<Rightarrow> string
     \<Rightarrow> (error + (TransactionMatch list \<times> nat)) \<times> state" where
  "search_transactions encode threshold fs s query =
     (let (transactions, s1) = get_transactions fs s
      in (search_transactions_body encode threshold transactions query,
          if transactions = [] then s1 else s1\<lparr>model_loaded := True\<rparr>))"

section \<open>The cascade as the specification words it\<close>

text \<open>
  The five stages of the specification, for one label and one document text, written
  from its sentences and not from the source: equality of the normalised strings, then
  equality with a token, then containment, then the largest ratio over the tokens, then
  the ratio with the whole text.
\<close>

definition spec_cascade_score :: "ratio_fn \<Rightarrow> string \<Rightarrow> string \<Rightarrow> real option" where
  "spec_cascade_score tsr label document_text =
     (let l = lower (strip label); t = lower (strip document_text) in
      if l = t then Some 1
      else if l \<in> set (split t) then Some (95 / 100)
      else if sublist l t then Some (85 / 100 + 1 / 10 * (real (length l) / real (length t)))
      else if 70 / 100 \<le> Max (set (map (\<lambda>token. tsr l token / 100) (split t)))
        then Some (Max (set (map (\<lambda>token. tsr l token / 100) (split t))))
      else if 70 / 100 \<le> tsr l t / 100 then Some (tsr l t / 100)
      else None)"

section \<open>Concrete tables\<close>

text \<open>Two small CSV files and the state of a fresh process, for the examples.\<close>

definition sample_files :: files where
  "sample_files =
     \<lparr>users_csv = Some [[''id'' \<mapsto> ''u1'', ''name'' \<mapsto> ''Liam Johnson'']],
      transactions_csv =
        Some [[''id'' \<mapsto> ''t1'', ''description'' \<mapsto> ''payment to liam johnson'']]\<rparr>"

definition initial_state :: state where
  "initial_state = \<lparr>users_cache = None, transactions_cache = None, model_loaded = False\<rparr>"

text \<open>
  For the examples the parameter \<open>tsr\<close> is the normalised Indel similarity of the two
  strings, scaled to 0..100: twice the length of a longest common subsequence over the
  sum of the lengths.
\<close>

fun lcs :: "string \<Rightarrow> string \<Rightarrow> nat" where
  "lcs [] ys = 0"
| "lcs (x # xs) [] = 0"
| "lcs (x # xs) (y # ys) =
     (if x = y then Suc (lcs xs ys) else max (lcs (x # xs) ys) (lcs xs (y # ys)))"

definition indel_ratio :: ratio_fn where
  "indel_ratio a b =
     (if a = [] \<and> b = [] then 100
      else 100 * real (2 * lcs a b) / real (length a + length b))"

text \<open>A model with two-dimensional vectors for three texts.\<close>

definition sample_encode :: encode_fn where
  "sample_encode t =
     (if t = ''salary'' then [1, 0]
      else if t = ''salary payment'' then [3, 4]
      else if t = ''refund'' then [- 476, 1107]
      else [0, 1])"

section \<open>The loader\<close>

lemma get_transactions_sample:
  "fst (get_transactions sample_files initial_state) = [(''t1'', ''payment to liam johnson'')]"
  by (simp add: get_transactions_def sample_files_def initial_state_def load_rows_def
      dict_set_def Let_def)

section \<open>Dictionaries, sorting and rounding\<close>

lemma fst_replace: "fst \<circ> (\<lambda>(k', v'). if k' = k then (k', v) else (k', v')) = fst"
  by (auto simp: fun_eq_iff)

lemma map_fst_dict_set:
  "map fst (dict_set d k v) = (if k \<in> set (map fst d) then map fst d else map fst d @ [k])"
  by (simp add: dict_set_def fst_replace)

lemma dict_set_distinct:
  "distinct (map fst d) \<Longrightarrow> distinct (map fst (dict_set d k v))"
  by (simp add: map_fst_dict_set)

lemma dict_set_values:
  "(k', v') \<in> set (dict_set d k v) \<Longrightarrow> (k', v') \<in> set d \<or> (k' = k \<and> v' = v)"
  by (auto simp: dict_set_def split: if_splits)

lemma sorted_desc_set: "set (sorted_desc d) = set d"
  by (simp add: sorted_desc_def)

lemma sorted_desc_distinct:
  "distinct (map fst d) \<Longrightarrow> distinct (map fst (sorted_desc d))"
  by (simp add: sorted_desc_def distinct_map)

lemma sorted_desc_sorted: "sorted_wrt (\<lambda>a b. snd a \<ge> snd b) (sorted_desc d)"
proof -
  have "sorted (map (\<lambda>x. - snd x) (sorted_desc d))"
    by (simp add: sorted_desc_def)
  then show ?thesis by (simp add: sorted_map)
qed

lemma round_half_even_cases:
  "round_half_even x = \<lfloor>x\<rfloor> \<or> round_half_even x = \<lfloor>x\<rfloor> + 1"
  by (simp add: round_half_even_def Let_def)

lemma round_half_even_mono:
  assumes "x \<le> y" shows "round_half_even x \<le> round_half_even y"
proof (cases "\<lfloor>x\<rfloor> = \<lfloor>y\<rfloor>")
  case True
  with assms show ?thesis
    by (auto simp: round_half_even_def Let_def)
next
  case False
  with assms have "\<lfloor>x\<rfloor> < \<lfloor>y\<rfloor>" by (simp add: floor_mono le_neq_trans)
  moreover have "round_half_even x \<le> \<lfloor>x\<rfloor> + 1"
    using round_half_even_cases [of x] by linarith
  moreover have "\<lfloor>y\<rfloor> \<le> round_half_even y"
    using round_half_even_cases [of y] by linarith
  ultimately show ?thesis by linarith
qed

lemma round2_mono: "x \<le> y \<Longrightarrow> round2 x \<le> round2 y"
  by (simp add: round2_def round_half_even_mono divide_right_mono)

lemma round_half_even_of_int: "round_half_even (of_int k) = k"
  by (simp add: round_half_even_def)

lemma round2_hundredth: "round2 (of_int k / 100) = of_int k / 100"
  by (simp add: round2_def round_half_even_of_int)

lemma round2_0: "round2 0 = 0" using round2_hundredth [of 0] by simp
lemma round2_1: "round2 1 = 1" using round2_hundredth [of 100] by simp
lemma round2_70: "round2 (7/10) = 7/10" using round2_hundredth [of 70] by simp

lemma round2_is_hundredth: "\<exists>k::int. round2 x = of_int k / 100"
  by (auto simp: round2_def)

section \<open>The two loops\<close>

lemma match_loop_distinct:
  "distinct (map fst m) \<Longrightarrow> distinct (map fst (match_loop tsr d t users m))"
  unfolding match_loop_def
  by (induction users arbitrary: m) (auto simp: dict_set_distinct split: option.splits)

lemma match_loop_values:
  "(k, v) \<in> set (match_loop tsr d t users m) \<Longrightarrow>
   (k, v) \<in> set m \<or> (\<exists>name. (k, name) \<in> set users \<and> user_score tsr d t name = Some v)"
  unfolding match_loop_def
proof (induction users arbitrary: m)
  case Nil
  then show ?case by simp
next
  case (Cons u users)
  obtain uid name where u: "u = (uid, name)" by (cases u)
  show ?case
  proof (cases "user_score tsr d t name")
    case None
    with Cons u show ?thesis by fastforce
  next
    case (Some sc)
    with Cons.prems u have "(k, v) \<in> set (fold (\<lambda>(user_id, user_name) m.
             case user_score tsr d t user_name of
               Some score \<Rightarrow> dict_set m user_id score
             | None \<Rightarrow> m) users (dict_set m uid sc))" by simp
    from Cons.IH [OF this] show ?thesis
      using Some u dict_set_values [of k v m uid sc] by auto
  qed
qed

lemma search_loop_distinct:
  "distinct (map fst m) \<Longrightarrow> search_loop th q es m = Inr r \<Longrightarrow> distinct (map fst r)"
  by (induction th q es m rule: search_loop.induct)
     (auto simp: dict_set_distinct Let_def split: sum.splits if_splits)

lemma user_match_ids:
  "map user_id (map (\<lambda>(uid, score). \<lparr>user_id = uid, match_metric = round2 score\<rparr>) xs) = map fst xs"
  by (induction xs) auto

lemma trans_match_ids:
  "map trans_id (map (\<lambda>(tid, score). \<lparr>trans_id = tid, embedding = score\<rparr>) xs) = map fst xs"
  by (induction xs) auto

lemma match_users_body_distinct:
  "distinct (map user_id (fst (match_users_body tsr transactions users tid)))"
  by (simp add: match_users_body_def Let_def user_match_ids sorted_desc_distinct
      match_loop_distinct split: option.splits del: map_map)

lemma search_body_distinct:
  "search_transactions_body encode th transactions q = Inr (res, n) \<Longrightarrow> distinct (map trans_id res)"
  by (auto simp: search_transactions_body_def Let_def trans_match_ids sorted_desc_distinct
      split: if_splits sum.splits dest!: search_loop_distinct [rotated] simp del: map_map)

lemma substring_score_bounds:
  assumes "sublist a d"
  shows "85 / 100 \<le> 85 / 100 + real (length a) / real (length d) * (1 / 10)"
    and "85 / 100 + real (length a) / real (length d) * (1 / 10) \<le> 95 / 100"
proof -
  have "length a \<le> length d" using assms by (rule sublist_length_le)
  then have hi: "real (length a) / real (length d) \<le> 1"
    by (simp add: divide_le_eq_1)
  have lo: "0 \<le> real (length a) / real (length d)" by simp
  from lo show "85 / 100 \<le> 85 / 100 + real (length a) / real (length d) * (1 / 10)"
    by simp
  from hi show "85 / 100 + real (length a) / real (length d) * (1 / 10) \<le> 95 / 100"
    by simp
qed

lemma user_score_ge:
  assumes "user_score tsr d t name = Some s"
  shows "7 / 10 \<le> s"
proof (cases "sublist (lower (strip name)) d")
  case True
  from substring_score_bounds(1) [OF True]
  have "7 / 10 \<le> 85 / 100 + real (length (lower (strip name))) / real (length d) * (1 / 10)"
    by (rule order_trans [rotated]) simp
  with assms show ?thesis
    by (auto simp: user_score_def Let_def FUZZY_MATCH_THRESHOLD_def split: if_splits)
next
  case False
  with assms show ?thesis
    by (auto simp: user_score_def Let_def FUZZY_MATCH_THRESHOLD_def split: if_splits)
qed


lemma match_users_body_sample:
  "match_users_body indel_ratio [(''t1'', ''payment to liam johnson'')] [(''u1'', ''Liam Johnson'')] ''t1''
    = ([\<lparr>user_id = ''u1'', match_metric = 9/10\<rparr>], 1)"
  by (simp add: match_users_body_def dict_get_def lower_def strip_def is_space_def lower_char_def
     Let_def split_def match_loop_def user_score_def sublist_code dict_set_def sorted_desc_def
     round2_def round_half_even_def)

lemma match_users_body_result:
  assumes "r \<in> set (fst (match_users_body tsr transactions users tid))"
  shows "\<exists>raw uid name s.
           dict_get transactions tid = Some raw \<and> lower (strip raw) \<noteq> [] \<and>
           (uid, name) \<in> set users \<and>
           user_score tsr (lower (strip raw)) (split (lower (strip raw))) name = Some s \<and>
           r = \<lparr>user_id = uid, match_metric = round2 s\<rparr>"
proof (cases "dict_get transactions tid")
  case None
  with assms show ?thesis by (simp add: match_users_body_def)
next
  case (Some raw)
  let ?d = "lower (strip raw)"
  from assms Some have ne: "?d \<noteq> []"
    by (auto simp: match_users_body_def Let_def split: if_splits)
  from assms Some ne obtain uid s where
    m: "(uid, s) \<in> set (match_loop tsr ?d (split ?d) users [])"
    and r: "r = \<lparr>user_id = uid, match_metric = round2 s\<rparr>"
    by (auto simp: match_users_body_def Let_def sorted_desc_set split: if_splits)
  from match_loop_values [OF m] obtain name where
    "(uid, name) \<in> set users" "user_score tsr ?d (split ?d) name = Some s" by auto
  with Some ne r show ?thesis by blast
qed


section \<open>The Cauchy-Schwarz inequality for lists\<close>

lemma two_le_sum:
  fixes u v w :: real
  assumes "w\<^sup>2 \<le> u * v" "0 \<le> u" "0 \<le> v"
  shows "2 * w \<le> u + v"
proof -
  have "(2 * w)\<^sup>2 = 4 * w\<^sup>2" by (simp add: power2_eq_square)
  also have "\<dots> \<le> 4 * (u * v)" using assms(1) by simp
  also have "\<dots> \<le> 4 * (u * v) + (u - v)\<^sup>2" by simp
  also have "\<dots> = (u + v)\<^sup>2" by (simp add: power2_eq_square algebra_simps)
  finally have "(2 * w)\<^sup>2 \<le> (u + v)\<^sup>2" .
  moreover have "0 \<le> u + v" using assms by simp
  ultimately show ?thesis by (rule power2_le_imp_le)
qed

lemma cs_step:
  fixes x y a A B :: real
  assumes "a\<^sup>2 \<le> A * B" "0 \<le> A" "0 \<le> B"
  shows "(x * y + a)\<^sup>2 \<le> (x * x + A) * (y * y + B)"
proof -
  have "(x * y * a)\<^sup>2 = (x * y)\<^sup>2 * a\<^sup>2" by (simp add: power_mult_distrib)
  also have "\<dots> \<le> (x * y)\<^sup>2 * (A * B)"
    using assms(1) by (rule mult_left_mono) simp
  also have "\<dots> = (x * x * B) * (y * y * A)" by (simp add: power2_eq_square)
  finally have "2 * (x * y * a) \<le> x * x * B + y * y * A"
    by (rule two_le_sum) (simp_all add: assms)
  moreover have "(x * x + A) * (y * y + B) - (x * y + a)\<^sup>2
      = (x * x * B + y * y * A - 2 * (x * y * a)) + (A * B - a\<^sup>2)"
    by (simp add: power2_eq_square algebra_simps)
  ultimately show ?thesis using assms(1) by linarith
qed

lemma sum_squares_nonneg: "0 \<le> sum_list (map (\<lambda>x. x * x) (xs :: real list))"
  by (induction xs) auto

lemma cauchy_schwarz_sq:
  "length xs = length ys \<Longrightarrow>
   (sum_list (map2 (*) xs ys))\<^sup>2
     \<le> sum_list (map (\<lambda>x. x * x) xs) * sum_list (map (\<lambda>y. y * y) (ys :: real list))"
proof (induction xs ys rule: list_induct2)
  case Nil
  then show ?case by simp
next
  case (Cons x xs y ys)
  then show ?case
    using cs_step [OF Cons.IH sum_squares_nonneg sum_squares_nonneg, of x y] by simp
qed

lemma cauchy_schwarz:
  assumes "length xs = length ys"
  shows "\<bar>sum_list (map2 (*) xs ys)\<bar>
     \<le> sqrt (sum_list (map (\<lambda>x. x * x) xs)) * sqrt (sum_list (map (\<lambda>y. y * y) (ys :: real list)))"
proof -
  have "\<bar>sum_list (map2 (*) xs ys)\<bar> = sqrt ((sum_list (map2 (*) xs ys))\<^sup>2)" by simp
  also have "\<dots> \<le> sqrt (sum_list (map (\<lambda>x. x * x) xs) * sum_list (map (\<lambda>y. y * y) ys))"
    using cauchy_schwarz_sq [OF assms] by (simp only: real_sqrt_le_iff)
  finally show ?thesis by (simp add: real_sqrt_mult)
qed

section \<open>The search loop\<close>

lemma search_loop_Cons:
  "search_loop th q ((tid, e) # rest) m =
     (if length q = length e
      then search_loop th q rest
             (if th < similarity_score q e then dict_set m tid (round2 (similarity_score q e))
              else m)
      else Inl ValueError)"
  by (simp add: np_dot_def similarity_score_def Let_def)

lemma search_loop_values:
  "search_loop th q es m = Inr r \<Longrightarrow> (k, v) \<in> set r \<Longrightarrow>
   (k, v) \<in> set m \<or>
   (\<exists>e. (k, e) \<in> set es \<and> length q = length e \<and> th < similarity_score q e
        \<and> v = round2 (similarity_score q e))"
proof (induction es arbitrary: m)
  case Nil
  then show ?case by simp
next
  case (Cons p rest)
  obtain tid e where p: "p = (tid, e)" by (cases p)
  let ?n = "similarity_score q e"
  let ?m' = "if th < ?n then dict_set m tid (round2 ?n) else m"
  from Cons.prems(1) p have len: "length q = length e"
    by (simp only: search_loop_Cons split: if_splits) simp
  from Cons.prems(1) have run: "search_loop th q rest ?m' = Inr r"
    by (simp only: p search_loop_Cons len refl if_True)
  from Cons.IH [OF run Cons.prems(2)] show ?case
    using len p dict_set_values [of k v m tid "round2 ?n"]
    by (auto split: if_splits)
qed

lemma zip_keys_encoded:
  "zip (map fst T) (map (f \<circ> snd) T) = map (\<lambda>(k, t). (k, f t)) T"
  by (induction T) auto

lemma search_body_result:
  assumes "search_transactions_body encode th T q = Inr (res, n)" "r \<in> set res"
  shows "\<exists>t. (trans_id r, t) \<in> set T \<and> length (encode q) = length (encode t)
            \<and> th < similarity_score (encode q) (encode t)
            \<and> embedding r = round2 (similarity_score (encode q) (encode t))"
proof (cases "T = []")
  case True
  with assms show ?thesis by (simp add: search_transactions_body_def)
next
  case False
  with assms obtain matches where
    run: "search_loop th (encode q) (map (\<lambda>(k, t). (k, encode t)) T) [] = Inr matches"
    and res: "res = map (\<lambda>(tid, score). \<lparr>trans_id = tid, embedding = score\<rparr>) (sorted_desc matches)"
    by (auto simp: search_transactions_body_def Let_def zip_keys_encoded split: sum.splits)
  from assms(2) res obtain k v where kv: "(k, v) \<in> set (sorted_desc matches)"
    and r: "r = \<lparr>trans_id = k, embedding = v\<rparr>"
    by auto
  from kv have kv: "(k, v) \<in> set matches" by (simp add: sorted_desc_set)
  from search_loop_values [OF run kv]
  have "\<exists>e. (k, e) \<in> set (map (\<lambda>(k, t). (k, encode t)) T)
          \<and> length (encode q) = length e \<and> th < similarity_score (encode q) e
          \<and> v = round2 (similarity_score (encode q) e)"
    by simp
  then obtain e where
    e: "(k, e) \<in> set (map (\<lambda>(k, t). (k, encode t)) T)" "length (encode q) = length e"
       "th < similarity_score (encode q) e" "v = round2 (similarity_score (encode q) e)"
    by blast
  from e(1) obtain t where "(k, t) \<in> set T" "e = encode t" by auto
  with e r show ?thesis by auto
qed

lemma search_body_tokens:
  "T \<noteq> [] \<Longrightarrow> search_transactions_body encode th T q = Inr (res, n) \<Longrightarrow> n = length (split q)"
  by (auto simp: search_transactions_body_def Let_def split: sum.splits)

lemma search_body_sorted:
  assumes "search_transactions_body encode th T q = Inr (res, n)"
  shows "sorted_wrt (\<ge>) (map embedding res)"
proof (cases "T = []")
  case True
  with assms show ?thesis by (simp add: search_transactions_body_def)
next
  case False
  with assms obtain matches where
    res: "res = map (\<lambda>(tid, score). \<lparr>trans_id = tid, embedding = score\<rparr>) (sorted_desc matches)"
    by (auto simp: search_transactions_body_def Let_def split: sum.splits)
  have "map embedding res = map snd (sorted_desc matches)"
    unfolding res by (induction "sorted_desc matches") auto
  then show ?thesis using sorted_desc_sorted [of matches]
    by (simp add: sorted_wrt_map)
qed

lemma similarity_score_bounds:
  assumes "length q = length e"
  shows "0 \<le> similarity_score q e \<and> similarity_score q e \<le> 1"
proof -
  define d where "d = sum_list (map2 (*) q e)"
  define p where "p = np_norm q * np_norm e"
  define c where "c = d / (p + 1 / 10 ^ 10)"
  have cs: "\<bar>d\<bar> \<le> p" unfolding d_def p_def np_norm_def by (rule cauchy_schwarz [OF assms])
  then have pos: "0 < p + 1 / 10 ^ 10" by simp
  from cs have "\<bar>d\<bar> \<le> p + 1 / 10 ^ 10" by simp
  with pos have "\<bar>c\<bar> \<le> 1" unfolding c_def by (simp add: abs_divide)
  then have "- 1 \<le> c" "c \<le> 1" by linarith+
  moreover have "similarity_score q e = (c + 1) / 2"
    by (simp add: similarity_score_def normalize_similarity_def c_def d_def p_def)
  ultimately show ?thesis by simp
qed

section \<open>The search on concrete vectors\<close>

lemma np_norm_1_0: "np_norm [1, 0] = 1"
  by (simp add: np_norm_def)

lemma np_norm_3_4: "np_norm [3, 4] = 5"
proof -
  have "sqrt 25 = 5" by (rule real_sqrt_unique) simp_all
  then show ?thesis by (simp add: np_norm_def)
qed

lemma np_norm_refund: "np_norm [- 476, 1107] = 1205"
proof -
  have "sqrt 1452025 = 1205" by (rule real_sqrt_unique) simp_all
  then show ?thesis by (simp add: np_norm_def)
qed

lemma score_salary_payment: "similarity_score [1, 0] [3, 4] = 26666666667 / 33333333334"
  by (simp add: similarity_score_def normalize_similarity_def np_norm_1_0 np_norm_3_4)

lemma score_refund: "similarity_score [1, 0] [- 476, 1107] = 7290000000001 / 24100000000002"
  by (simp add: similarity_score_def normalize_similarity_def np_norm_1_0 np_norm_refund)

lemma round2_salary_payment: "round2 (26666666667 / 33333333334) = 4 / 5"
  by (simp add: round2_def round_half_even_def Let_def)

lemma round2_refund: "round2 (7290000000001 / 24100000000002) = 3 / 10"
  by (simp add: round2_def round_half_even_def Let_def)

lemma search_sample_salary:
  "search_transactions_body sample_encode (3 / 10) [(''t1'', ''salary payment'')] ''salary''
     = Inr ([\<lparr>trans_id = ''t1'', embedding = 4 / 5\<rparr>], 1)"
  by (simp add: search_transactions_body_def sample_encode_def search_loop_Cons
      score_salary_payment round2_salary_payment dict_set_def sorted_desc_def split_def is_space_def
      del: search_loop.simps(2))

lemma search_sample_refund:
  "search_transactions_body sample_encode (3 / 10) [(''t2'', ''refund'')] ''salary''
     = Inr ([\<lparr>trans_id = ''t2'', embedding = 3 / 10\<rparr>], 1)"
  by (simp add: search_transactions_body_def sample_encode_def search_loop_Cons
      score_refund round2_refund dict_set_def sorted_desc_def split_def is_space_def
      del: search_loop.simps(2))

section \<open>Upper bounds of the scores\<close>

lemma lcs_le: "lcs a b \<le> length a \<and> lcs a b \<le> length b"
  by (induction a b rule: lcs.induct) auto

lemma indel_ratio_le: "indel_ratio a b \<le> 100"
proof (cases "a = [] \<and> b = []")
  case True
  then show ?thesis by (simp add: indel_ratio_def)
next
  case False
  then have "0 < length a + length b" by (cases a) auto
  then have pos: "0 < real (length a + length b)" by (simp only: of_nat_0_less_iff)
  have "2 * lcs a b \<le> length a + length b" using lcs_le [of a b] by linarith
  then have "real (2 * lcs a b) \<le> real (length a + length b)" by (simp only: of_nat_le_iff)
  then have "real (2 * lcs a b) / real (length a + length b) \<le> 1"
    using pos by (simp only: divide_le_eq_1_pos)
  then have "100 * (real (2 * lcs a b) / real (length a + length b)) \<le> 100" by linarith
  with False show ?thesis by (simp add: indel_ratio_def)
qed

lemma best_token_score_le:
  assumes "\<forall>a b. tsr a b \<le> 100"
  shows "best_token_score tsr n tokens \<le> 1"
proof -
  have "b \<le> 1 \<Longrightarrow> fold (\<lambda>token best. let token_score = tsr n token / 100
                         in if token_score > best then token_score else best) tokens b \<le> 1" for b
  proof (induction tokens arbitrary: b)
    case Nil
    then show ?case by simp
  next
    case (Cons t ts)
    have "tsr n t / 100 \<le> 1" using assms by simp
    with Cons show ?case by (simp add: Let_def)
  qed
  then show ?thesis by (simp add: best_token_score_def)
qed

lemma user_score_le:
  assumes "\<forall>a b. tsr a b \<le> 100" "user_score tsr d t name = Some s"
  shows "s \<le> 1"
proof (cases "sublist (lower (strip name)) d")
  case True
  from substring_score_bounds(2) [OF True]
  have "85 / 100 + real (length (lower (strip name))) / real (length d) * (1 / 10) \<le> 1"
    by (rule order_trans) simp
  with assms(2) True show ?thesis
    by (auto simp: user_score_def Let_def split: if_splits)
next
  case False
  have "best_token_score tsr (lower (strip name)) t \<le> 1"
    using assms(1) by (rule best_token_score_le)
  moreover have "tsr (lower (strip name)) d / 100 \<le> 1" using assms(1) by simp
  ultimately show ?thesis using assms(2) False
    by (auto simp: user_score_def Let_def split: if_splits)
qed

lemma match_users_body_sorted:
  "sorted_wrt (\<ge>) (map match_metric (fst (match_users_body tsr T U tid)))"
proof -
  have "sorted_wrt (\<ge>) (map match_metric
          (map (\<lambda>(uid, score). \<lparr>user_id = uid, match_metric = round2 score\<rparr>) (sorted_desc m)))"
    for m :: "(string, real) dict"
  proof -
    have "sorted_wrt (\<lambda>a b. round2 (snd a) \<ge> round2 (snd b)) (sorted_desc m)"
      by (rule sorted_wrt_mono_rel [OF _ sorted_desc_sorted]) (simp add: round2_mono)
    moreover have "map match_metric
          (map (\<lambda>(uid, score). \<lparr>user_id = uid, match_metric = round2 score\<rparr>) (sorted_desc m))
        = map (\<lambda>a. round2 (snd a)) (sorted_desc m)"
      by (induction "sorted_desc m") auto
    ultimately show ?thesis by (simp only: sorted_wrt_map)
  qed
  then show ?thesis
    by (simp add: match_users_body_def Let_def split: option.splits del: map_map)
qed


section \<open>Tokens of a description\<close>

lemma is_space_lower_char: "is_space (lower_char c) = is_space c"
  by (auto simp: is_space_def lower_char_def split: option.splits if_splits)

lemma split_from_nonempty:
  "cur \<noteq> [] \<or> (\<exists>c \<in> set s. \<not> is_space c) \<Longrightarrow> split_from cur s \<noteq> []"
  by (induction s arbitrary: cur) auto

lemma strip_has_letter:
  assumes "strip s \<noteq> []"
  shows "\<exists>c \<in> set (strip s). \<not> is_space c"
proof -
  let ?u = "dropWhile is_space (rev (dropWhile is_space s))"
  from assms have ne: "?u \<noteq> []" by (simp add: strip_def)
  then have "\<not> is_space (hd ?u)" by (rule hd_dropWhile)
  moreover from ne have "hd ?u \<in> set ?u" by simp
  ultimately show ?thesis by (auto simp: strip_def)
qed

lemma tokens_nonempty:
  assumes "lower (strip raw) \<noteq> []"
  shows "split (lower (strip raw)) \<noteq> []"
proof -
  from assms have "strip raw \<noteq> []" by (simp add: lower_def)
  from strip_has_letter [OF this] obtain c where "c \<in> set (strip raw)" "\<not> is_space c" by blast
  then have "\<exists>c \<in> set (lower (strip raw)). \<not> is_space c"
    by (auto simp: lower_def is_space_lower_char)
  then show ?thesis unfolding split_def by (intro split_from_nonempty) simp
qed

lemma best_fold_max:
  "fold (\<lambda>token best. let token_score = f token in
           if token_score > best then token_score else best) tokens (b::real)
   = (if tokens = [] then b else max b (Max (set (map f tokens))))"
proof (induction tokens arbitrary: b)
  case Nil
  then show ?case by simp
next
  case (Cons t ts)
  show ?case
  proof (cases "ts = []")
    case True
    then show ?thesis by (simp add: Let_def max_def)
  next
    case False
    then show ?thesis using Cons [of "if f t > b then f t else b"]
      by (auto simp: Let_def max_def)
  qed
qed

lemma best_token_score_max:
  "tokens \<noteq> [] \<Longrightarrow>
   best_token_score tsr n tokens = max 0 (Max (set (map (\<lambda>token. tsr n token / 100) tokens)))"
  unfolding best_token_score_def by (simp only: best_fold_max if_False)

lemma user_score_cascade:
  assumes "lower (strip raw) \<noteq> []"
  shows "user_score tsr (lower (strip raw)) (split (lower (strip raw))) name
           = spec_cascade_score tsr name raw"
proof -
  have b: "best_token_score tsr n (split (lower (strip raw)))
      = max 0 (Max (set (map (\<lambda>token. tsr n token / 100) (split (lower (strip raw))))))" for n
    by (rule best_token_score_max [OF tokens_nonempty [OF assms]])
  show ?thesis
    unfolding user_score_def spec_cascade_score_def Let_def b FUZZY_MATCH_THRESHOLD_def
    by (auto simp: max_def)
qed

section \<open>The matches of the user loop\<close>

lemma dict_set_fresh: "k \<notin> set (map fst d) \<Longrightarrow> dict_set d k v = d @ [(k, v)]"
  by (simp add: dict_set_def)

lemma match_loop_closed:
  "distinct (map fst users) \<Longrightarrow> set (map fst users) \<inter> set (map fst m) = {} \<Longrightarrow>
   match_loop tsr d t users m =
     m @ List.map_filter (\<lambda>(uid, name). map_option (Pair uid) (user_score tsr d t name)) users"
proof (induction users arbitrary: m)
  case Nil
  then show ?case by (simp add: match_loop_def map_filter_simps)
next
  case (Cons u users)
  obtain uid name where u: "u = (uid, name)" by (cases u)
  from Cons.prems u have fresh: "uid \<notin> set (map fst m)" and d: "distinct (map fst users)"
    and nin: "uid \<notin> set (map fst users)" and disj: "set (map fst users) \<inter> set (map fst m) = {}"
    by auto
  show ?case
  proof (cases "user_score tsr d t name")
    case None
    have "match_loop tsr d t (u # users) m = match_loop tsr d t users m"
      by (simp add: match_loop_def u None)
    with Cons.IH [OF d disj] None u show ?thesis by (simp add: map_filter_simps)
  next
    case (Some s)
    have step: "match_loop tsr d t (u # users) m = match_loop tsr d t users (m @ [(uid, s)])"
      by (simp add: match_loop_def u Some dict_set_fresh [OF fresh])
    have "set (map fst users) \<inter> set (map fst (m @ [(uid, s)])) = {}"
      using disj nin by auto
    from Cons.IH [OF d this] step Some u show ?thesis by (simp add: map_filter_simps)
  qed
qed

lemma match_loop_member:
  assumes "distinct (map fst users)" "(uid, name) \<in> set users"
  shows "case user_score tsr d t name of
           Some s \<Rightarrow> (uid, s) \<in> set (match_loop tsr d t users [])
         | None \<Rightarrow> uid \<notin> set (map fst (match_loop tsr d t users []))"
proof -
  have closed: "match_loop tsr d t users [] =
     List.map_filter (\<lambda>(uid, name). map_option (Pair uid) (user_score tsr d t name)) users"
    using match_loop_closed [OF assms(1), of "[]"] by simp
  show ?thesis
  proof (cases "user_score tsr d t name")
    case None
    have "uid \<notin> set (map fst (match_loop tsr d t users []))"
    proof
      assume "uid \<in> set (map fst (match_loop tsr d t users []))"
      then obtain s where "(uid, s) \<in> set (match_loop tsr d t users [])" by auto
      from match_loop_values [OF this] obtain name' where
        n': "(uid, name') \<in> set users" "user_score tsr d t name' = Some s" by auto
      from assms n'(1) have "name' = name" by (meson eq_key_imp_eq_value)
      with n'(2) None show False by simp
    qed
    with None show ?thesis by simp
  next
    case (Some s)
    with assms(2) have "(uid, s) \<in> set (match_loop tsr d t users [])"
      unfolding closed by (force simp: map_filter_def)
    with Some show ?thesis by simp
  qed
qed

lemma match_users_body_found:
  assumes "dict_get transactions tid = Some raw" "lower (strip raw) \<noteq> []" "users \<noteq> []"
  shows "fst (match_users_body tsr transactions users tid) =
           map (\<lambda>(uid, score). \<lparr>user_id = uid, match_metric = round2 score\<rparr>)
             (sorted_desc (match_loop tsr (lower (strip raw)) (split (lower (strip raw))) users []))"
  using assms by (simp add: match_users_body_def Let_def)

lemma match_users_body_blank:
  assumes "dict_get transactions tid = Some raw" "lower (strip raw) = []"
  shows "fst (match_users_body tsr transactions users tid) = []"
  using assms by (simp add: match_users_body_def Let_def)

lemma cascade_sample:
  "spec_cascade_score indel_ratio ''Liam Johnson'' ''payment to liam johnson''
     = Some (85 / 100 + 1 / 10 * (12 / 23))"
  by (simp add: spec_cascade_score_def lower_def strip_def is_space_def lower_char_def
     Let_def split_def sublist_code)

lemma cascade_blank: "spec_cascade_score indel_ratio '' '' [] = Some 1"
  by (simp add: spec_cascade_score_def lower_def strip_def is_space_def)

lemma match_users_blank_sample:
  "fst (match_users_body indel_ratio [(''t1'', [])] [(''u1'', '' '')] ''t1'') = []"
  by (simp add: match_users_body_def dict_get_def lower_def strip_def)

lemma user_score_exact: "lower (strip name) = d \<Longrightarrow> user_score tsr d t name = Some 1"
  by (simp add: user_score_def)

lemma match_users_tie_sample:
  "fst (match_users_body indel_ratio [(''t1'', ''bob'')] [(''u1'', ''Bob''), (''u2'', ''bob'')] ''t1'')
     = [\<lparr>user_id = ''u1'', match_metric = 1\<rparr>, \<lparr>user_id = ''u2'', match_metric = 1\<rparr>]"
  by (simp add: match_users_body_def dict_get_def lower_def strip_def is_space_def lower_char_def
     Let_def split_def match_loop_def user_score_def dict_set_def sorted_desc_def round2_1)

section \<open>The caches\<close>

lemma get_users_keeps_transactions:
  "transactions_cache (snd (get_users fs s)) = transactions_cache s"
  by (simp add: get_users_def Let_def split: option.splits)

lemma transactions_cache_filled:
  "transactions_cache (snd (get_transactions fs s)) = Some (fst (get_transactions fs s))"
  by (simp add: get_transactions_def Let_def split: option.splits)

lemma users_cache_filled:
  "users_cache (snd (get_users fs s)) = Some (fst (get_users fs s))"
  by (simp add: get_users_def Let_def split: option.splits)

lemma get_transactions_from_cache:
  "transactions_cache s = Some c \<Longrightarrow> fst (get_transactions fs s) = c"
  by (simp add: get_transactions_def)

lemma get_users_from_cache:
  "users_cache s = Some c \<Longrightarrow> fst (get_users fs s) = c"
  by (simp add: get_users_def)

lemma match_users_fst:
  "fst (match_users tsr fs s tid) =
     match_users_body tsr (fst (get_transactions fs s))
       (fst (get_users fs (snd (get_transactions fs s)))) tid"
  by (simp add: match_users_def split: prod.splits)

lemma match_users_snd:
  "snd (match_users tsr fs s tid) = snd (get_users fs (snd (get_transactions fs s)))"
  by (simp add: match_users_def split: prod.splits)

lemma search_transactions_fst:
  "fst (search_transactions encode th fs s q) =
     search_transactions_body encode th (fst (get_transactions fs s)) q"
  by (simp add: search_transactions_def split: prod.splits)

lemma search_transactions_snd_cache:
  "transactions_cache (snd (search_transactions encode th fs s q))
     = Some (fst (get_transactions fs s))"
  by (simp add: search_transactions_def transactions_cache_filled split: prod.splits)
     (metis transactions_cache_filled snd_conv fst_conv)

section \<open>The stored scores\<close>

lemma match_loop_ge:
  "(k, s) \<in> set (match_loop tsr d t users []) \<Longrightarrow> 7 / 10 \<le> s"
  using match_loop_values [of k s tsr d t users "[]"] user_score_ge by auto

lemma match_users_body_entry:
  assumes "r \<in> set (fst (match_users_body tsr transactions users tid))"
  shows "\<exists>raw s. dict_get transactions tid = Some raw \<and>
           (user_id r, s) \<in> set (match_loop tsr (lower (strip raw))
                                    (split (lower (strip raw))) users []) \<and>
           match_metric r = round2 s"
proof (cases "dict_get transactions tid")
  case None
  with assms show ?thesis by (simp add: match_users_body_def)
next
  case (Some raw)
  let ?d = "lower (strip raw)"
  from assms Some have ne: "?d \<noteq> []" "users \<noteq> []"
    by (auto simp: match_users_body_def Let_def split: if_splits)
  from assms obtain uid s where
    m: "(uid, s) \<in> set (sorted_desc (match_loop tsr ?d (split ?d) users []))"
    and r: "r = \<lparr>user_id = uid, match_metric = round2 s\<rparr>"
    unfolding match_users_body_found [OF Some ne] by auto
  from m have "(uid, s) \<in> set (match_loop tsr ?d (split ?d) users [])"
    by (simp add: sorted_desc_set)
  with Some r show ?thesis by auto
qed

lemma match_loop_sample:
  "match_loop indel_ratio (lower (strip ''payment to liam johnson''))
       (split (lower (strip ''payment to liam johnson''))) [(''u1'', ''Liam Johnson'')] []
     = [(''u1'', 83 / 92)]"
  by (simp add: lower_def strip_def is_space_def lower_char_def
     Let_def split_def match_loop_def user_score_def sublist_code dict_set_def)

section \<open>The place of an exact match\<close>

lemma insort_key_after_smaller:
  "\<forall>a \<in> set F. f a < f x \<Longrightarrow> insort_key f x (F @ S) = F @ insort_key f x S"
  by (induction F) auto

lemma sort_key_least_first:
  "\<forall>y \<in> set xs. m \<le> f y \<Longrightarrow>
   sort_key f xs = filter (\<lambda>y. f y = m) xs @ sort_key f (filter (\<lambda>y. f y \<noteq> m) xs)"
proof (induction xs)
  case Nil
  then show ?case by simp
next
  case (Cons x xs)
  let ?F = "filter (\<lambda>y. f y = m) xs"
  let ?S = "sort_key f (filter (\<lambda>y. f y \<noteq> m) xs)"
  from Cons have IH: "sort_key f xs = ?F @ ?S" by simp
  show ?case
  proof (cases "f x = m")
    case True
    have "\<forall>a \<in> set (?F @ ?S). f x \<le> f a" using Cons.prems True by auto
    then have "insort_key f x (?F @ ?S) = x # ?F @ ?S" by (rule insort_is_Cons)
    with True IH show ?thesis by simp
  next
    case False
    with Cons.prems have "m < f x" by (simp add: less_le)
    then have "\<forall>a \<in> set ?F. f a < f x" by simp
    then have "insort_key f x (?F @ ?S) = ?F @ insort_key f x ?S"
      by (rule insort_key_after_smaller)
    with False IH show ?thesis by simp
  qed
qed

lemma sorted_desc_top_first:
  assumes "\<forall>y \<in> set d. snd y \<le> (1::real)"
  shows "sorted_desc d = filter (\<lambda>y. snd y = 1) d @ sorted_desc (filter (\<lambda>y. snd y \<noteq> 1) d)"
proof -
  have "\<forall>y \<in> set d. - 1 \<le> - snd y" using assms by simp
  from sort_key_least_first [of d "- 1" "\<lambda>x. - snd x", OF this]
  show ?thesis by (simp add: sorted_desc_def)
qed

lemma map_filter_append:
  "List.map_filter g (xs @ ys) = List.map_filter g xs @ List.map_filter g ys"
  by (simp add: map_filter_def)

lemma filter_top_map_filter:
  "filter (\<lambda>y. snd y = (1::real))
     (List.map_filter (\<lambda>(uid, name). map_option (Pair uid) (sc name)) us)
   = map (\<lambda>(k, n). (k, 1)) (filter (\<lambda>(k, n). sc n = Some 1) us)"
  by (induction us) (auto simp: map_filter_simps split: option.splits)

lemma match_loop_le:
  assumes "\<forall>a b. tsr a b \<le> 100" "y \<in> set (match_loop tsr d t users [])"
  shows "snd y \<le> 1"
proof -
  obtain k s where y: "y = (k, s)" by (cases y)
  from assms(2) match_loop_values [of k s tsr d t users "[]"] y
  obtain name where "user_score tsr d t name = Some s" by auto
  from user_score_le [OF assms(1) this] y show ?thesis by simp
qed

lemma exact_match_position:
  assumes dist: "distinct (map fst users)"
    and tr: "dict_get transactions tid = Some raw"
    and us: "users = before @ (uid, name) # after"
    and eq: "lower (strip name) = lower (strip raw)"
    and ne: "lower (strip raw) \<noteq> []"
    and bound: "\<forall>a b. tsr a b \<le> 100"
  shows "\<exists>rest. fst (match_users_body tsr transactions users tid) =
           map (\<lambda>(k, n). \<lparr>user_id = k, match_metric = 1\<rparr>)
             (filter (\<lambda>(k, n). user_score tsr (lower (strip raw))
                        (split (lower (strip raw))) n = Some 1) before)
           @ \<lparr>user_id = uid, match_metric = 1\<rparr> # rest"
proof -
  let ?d = "lower (strip raw)"
  let ?g = "\<lambda>(uid, name). map_option (Pair uid) (user_score tsr ?d (split ?d) name)"
  let ?m = "match_loop tsr ?d (split ?d) users []"
  have sc: "user_score tsr ?d (split ?d) name = Some 1"
    by (rule user_score_exact [OF eq])
  have "?m = List.map_filter ?g users"
    using match_loop_closed [OF dist, of "[]" tsr ?d "split ?d"] by simp
  then have m: "?m = List.map_filter ?g before @ (uid, 1) # List.map_filter ?g after"
    by (simp add: us map_filter_append map_filter_simps sc)
  have "\<forall>y \<in> set ?m. snd y \<le> 1" using match_loop_le [OF bound] by blast
  from sorted_desc_top_first [OF this]
  have "sorted_desc ?m =
      filter (\<lambda>y. snd y = 1) (List.map_filter ?g before) @ (uid, 1) #
      (filter (\<lambda>y. snd y = 1) (List.map_filter ?g after) @
       sorted_desc (filter (\<lambda>y. snd y \<noteq> 1) ?m))"
    by (simp add: m)
  then obtain rest where s: "sorted_desc ?m =
      map (\<lambda>(k, n). (k, 1)) (filter (\<lambda>(k, n). user_score tsr ?d (split ?d) n = Some 1) before)
      @ (uid, 1) # rest"
    by (simp only: filter_top_map_filter)
  from us have "users \<noteq> []" by simp
  from match_users_body_found [OF tr ne this]
  have "fst (match_users_body tsr transactions users tid) =
      map (\<lambda>(uid, score). \<lparr>user_id = uid, match_metric = round2 score\<rparr>) (sorted_desc ?m)" .
  also have "\<dots> = map (\<lambda>(k, n). \<lparr>user_id = k, match_metric = 1\<rparr>)
             (filter (\<lambda>(k, n). user_score tsr ?d (split ?d) n = Some 1) before)
           @ \<lparr>user_id = uid, match_metric = 1\<rparr> #
             map (\<lambda>(uid, score). \<lparr>user_id = uid, match_metric = round2 score\<rparr>) rest"
    unfolding s by (simp add: round2_1 case_prod_beta comp_def)
  finally show ?thesis by blast
qed

section \<open>Rounding to binary floating point\<close>

lemma round_half_even_minus: "round_half_even (- x) = - round_half_even x"
proof (cases "x = of_int \<lfloor>x\<rfloor>")
  case True
  then obtain k :: int where "x = of_int k" ..
  then have "- x = of_int (- k)" by simp
  then show ?thesis unfolding \<open>x = of_int k\<close>
    by (simp only: round_half_even_of_int flip: of_int_minus)
next
  case False
  let ?f = "\<lfloor>x\<rfloor>"
  from False have "of_int ?f \<noteq> x" by (rule not_sym)
  with of_int_floor_le have lo: "of_int ?f < x" by (rule le_neq_trans)
  have hi: "x < of_int ?f + 1" by linarith
  have fl: "\<lfloor>- x\<rfloor> = - ?f - 1"
  proof (rule floor_unique)
    have e: "of_int (- ?f - 1) = - of_int ?f - (1::real)" by simp
    show "of_int (- ?f - 1) \<le> - x" unfolding e using hi by linarith
    show "- x < of_int (- ?f - 1) + 1" unfolding e using lo by linarith
  qed
  show ?thesis
    unfolding round_half_even_def Let_def fl
    using lo hi by (auto simp: algebra_simps)
qed

lemma log2_bracket:
  assumes "0 < x"
  shows "2 powr of_int \<lfloor>log 2 x\<rfloor> \<le> x" and "x < 2 powr of_int (\<lfloor>log 2 x\<rfloor> + 1)"
proof -
  have x: "2 powr log 2 x = x" using assms by simp
  have "of_int \<lfloor>log 2 x\<rfloor> \<le> log 2 x" by (rule of_int_floor_le)
  then have "2 powr of_int \<lfloor>log 2 x\<rfloor> \<le> 2 powr log 2 x" by (simp only: powr_le_cancel_iff)
  then show "2 powr of_int \<lfloor>log 2 x\<rfloor> \<le> x" by (simp only: x)
  have "log 2 x < of_int (\<lfloor>log 2 x\<rfloor> + 1)" by linarith
  then have "2 powr log 2 x < 2 powr of_int (\<lfloor>log 2 x\<rfloor> + 1)" by (simp only: powr_less_cancel_iff)
  then show "x < 2 powr of_int (\<lfloor>log 2 x\<rfloor> + 1)" by (simp only: x)
qed

lemma round_half_even_ge: "of_int a \<le> y \<Longrightarrow> a \<le> round_half_even y"
  using round_half_even_mono [of "of_int a" y] by (simp add: round_half_even_of_int)

lemma round_half_even_le: "y \<le> of_int b \<Longrightarrow> round_half_even y \<le> b"
  using round_half_even_mono [of y "of_int b"] by (simp add: round_half_even_of_int)

lemma float_round_pos:
  "0 < x \<Longrightarrow> float_round p x
     = of_int (round_half_even (x / 2 powr of_int (\<lfloor>log 2 x\<rfloor> - int p + 1)))
         * 2 powr of_int (\<lfloor>log 2 x\<rfloor> - int p + 1)"
  by (simp add: float_round_def float_exponent_def)

lemma float_round_bracket:
  assumes "0 < x" "0 < p"
  shows "2 powr of_int \<lfloor>log 2 x\<rfloor> \<le> float_round p x"
    and "float_round p x \<le> 2 powr of_int (\<lfloor>log 2 x\<rfloor> + 1)"
proof -
  define E where "E = \<lfloor>log 2 x\<rfloor>"
  define e where "e = E - int p + 1"
  define u :: real where "u = 2 powr of_int e"
  have u: "0 < u" by (simp add: u_def)
  have lo: "2 powr of_int E = 2 ^ (p - 1) * u"
  proof -
    have "of_int E = real (p - 1) + of_int e" using assms(2) by (simp add: e_def of_nat_diff)
    then have "2 powr of_int E = 2 powr real (p - 1) * 2 powr of_int e"
      by (simp only: powr_add)
    then show ?thesis by (simp add: u_def powr_realpow)
  qed
  have hi: "2 powr of_int (E + 1) = 2 ^ p * u"
  proof -
    have "of_int (E + 1) = real p + of_int e" by (simp add: e_def)
    then have "2 powr of_int (E + 1) = 2 powr real p * 2 powr of_int e"
      by (simp only: powr_add)
    then show ?thesis by (simp add: u_def powr_realpow)
  qed
  from log2_bracket(1) [OF assms(1)] have "2 powr of_int E \<le> x" unfolding E_def .
  then have a: "2 ^ (p - 1) * u \<le> x" unfolding lo .
  from log2_bracket(2) [OF assms(1)] have "x < 2 powr of_int (E + 1)" unfolding E_def .
  then have b: "x \<le> 2 ^ p * u" unfolding hi by (rule less_imp_le)
  from a b have s: "of_int (2 ^ (p - 1)) \<le> x / u" "x / u \<le> of_int (2 ^ p)"
    using u by (simp_all add: pos_le_divide_eq pos_divide_le_eq)
  have r: "2 ^ (p - 1) \<le> round_half_even (x / u)" "round_half_even (x / u) \<le> 2 ^ p"
    using s(1) apply (rule round_half_even_ge)
    using s(2) apply (rule round_half_even_le)
    done
  have fl: "float_round p x = of_int (round_half_even (x / u)) * u"
    by (simp add: float_round_pos [OF assms(1)] u_def e_def E_def)
  from r(1) have "(2 ^ (p - 1) :: real) \<le> of_int (round_half_even (x / u))"
    by (metis of_int_le_iff of_int_numeral of_int_power)
  then have "2 ^ (p - 1) * u \<le> of_int (round_half_even (x / u)) * u"
    using u by (simp only: mult_le_cancel_right_pos)
  then show "2 powr of_int \<lfloor>log 2 x\<rfloor> \<le> float_round p x"
    by (simp only: fl lo E_def [symmetric])
  from r(2) have "of_int (round_half_even (x / u)) \<le> (2 ^ p :: real)"
    by (metis of_int_le_iff of_int_numeral of_int_power)
  then have "of_int (round_half_even (x / u)) * u \<le> 2 ^ p * u"
    using u by (simp only: mult_le_cancel_right_pos)
  then show "float_round p x \<le> 2 powr of_int (\<lfloor>log 2 x\<rfloor> + 1)"
    by (simp only: fl hi E_def [symmetric])
qed

lemma float_round_mono_pos:
  assumes "0 < x" "x \<le> y" "0 < p"
  shows "float_round p x \<le> float_round p y"
proof -
  from assms have y: "0 < y" by simp
  have le: "\<lfloor>log 2 x\<rfloor> \<le> \<lfloor>log 2 y\<rfloor>"
    using assms(1,2) by (intro floor_mono) simp
  show ?thesis
  proof (cases "\<lfloor>log 2 x\<rfloor> = \<lfloor>log 2 y\<rfloor>")
    case True
    define u :: real where "u = 2 powr of_int (\<lfloor>log 2 y\<rfloor> - int p + 1)"
    have u: "0 < u" by (simp add: u_def)
    have "x / u \<le> y / u" using assms(2) u by (simp add: divide_right_mono)
    then have "round_half_even (x / u) \<le> round_half_even (y / u)"
      by (rule round_half_even_mono)
    then have "of_int (round_half_even (x / u)) * u \<le> of_int (round_half_even (y / u)) * u"
      using u by (simp only: mult_le_cancel_right_pos of_int_le_iff)
    then show ?thesis
      by (simp only: float_round_pos [OF assms(1)] float_round_pos [OF y] True u_def)
  next
    case False
    with le have "\<lfloor>log 2 x\<rfloor> + 1 \<le> \<lfloor>log 2 y\<rfloor>" by simp
    then have "(2::real) powr of_int (\<lfloor>log 2 x\<rfloor> + 1) \<le> 2 powr of_int \<lfloor>log 2 y\<rfloor>"
      by (simp only: powr_le_cancel_iff of_int_le_iff)
    with float_round_bracket(2) [OF assms(1) assms(3)] float_round_bracket(1) [OF y assms(3)]
    show ?thesis by linarith
  qed
qed

lemma float_round_0: "float_round p 0 = 0"
  by (simp add: float_round_def)

lemma float_round_minus: "float_round p (- x) = - float_round p x"
  by (simp add: float_round_def float_exponent_def round_half_even_minus)

lemma float_round_nonneg: "0 < x \<Longrightarrow> 0 < p \<Longrightarrow> 0 \<le> float_round p x"
  using float_round_bracket(1) [of x p] by (smt (verit) powr_ge_zero)

lemma float_round_mono:
  assumes "x \<le> y" "0 < p"
  shows "float_round p x \<le> float_round p y"
proof -
  consider "0 < x" | "x = 0" | "x < 0" by linarith
  then show ?thesis
  proof cases
    case 1
    then show ?thesis using assms by (rule float_round_mono_pos)
  next
    case 2
    show ?thesis
    proof (cases "y = 0")
      case True with 2 show ?thesis by simp
    next
      case False
      with 2 assms have "0 < y" by simp
      with 2 show ?thesis by (simp add: float_round_0 float_round_nonneg assms(2))
    qed
  next
    case 3
    then have nx: "0 < - x" by simp
    have fx: "float_round p x \<le> 0"
      using float_round_nonneg [OF nx assms(2)] by (simp add: float_round_minus)
    consider "0 < y" | "y = 0" | "y < 0" by linarith
    then show ?thesis
    proof cases
      case 1
      from float_round_nonneg [OF 1 assms(2)] fx show ?thesis by linarith
    next
      case 2
      with fx show ?thesis by (simp add: float_round_0)
    next
      case 3
      then have "0 < - y" "- y \<le> - x" using assms(1) by simp_all
      from float_round_mono_pos [OF this assms(2)] show ?thesis
        by (simp add: float_round_minus)
    qed
  qed
qed

lemma normalize_similarity_float_mono:
  assumes "c1 \<le> c2" "0 < p"
  shows "normalize_similarity_float p c1 \<le> normalize_similarity_float p c2"
proof -
  from assms(1) have "c1 + 1 \<le> c2 + 1" by simp
  then have "float_round p (c1 + 1) \<le> float_round p (c2 + 1)"
    using assms(2) by (rule float_round_mono)
  then have "float_round p (c1 + 1) / 2 \<le> float_round p (c2 + 1) / 2" by simp
  then show ?thesis unfolding normalize_similarity_float_def
    using assms(2) by (rule float_round_mono)
qed

lemma floor_log2:
  assumes "0 < x" "2 powr of_int k \<le> x" "x < 2 powr of_int (k + 1)"
  shows "\<lfloor>log 2 x\<rfloor> = k"
proof (rule floor_unique)
  show "of_int k \<le> log 2 x" using assms(1,2) by (simp add: le_log_iff)
  show "log 2 x < of_int k + 1" using assms(1,3) by (simp add: log_less_iff)
qed

lemma float_round_in_binade:
  assumes "0 < x" "2 powr of_int k \<le> x" "x < 2 powr of_int (k + 1)"
  shows "float_round p x
     = of_int (round_half_even (x / 2 powr of_int (k - int p + 1)))
         * 2 powr of_int (k - int p + 1)"
  by (simp only: float_round_pos [OF assms(1)] floor_log2 [OF assms])

lemma two_powr_neg: "(2::real) powr of_int (- int n) = 1 / 2 ^ n"
  by (simp add: powr_minus powr_realpow divide_inverse)

lemma float_round_in_binade_unit:
  assumes "0 < x" "2 powr of_int k \<le> x" "x < 2 powr of_int (k + 1)"
    and "2 powr of_int (k - int p + 1) = u"
  shows "float_round p x = of_int (round_half_even (x / u)) * u"
  using float_round_in_binade [OF assms(1-3), of p] by (simp only: assms(4))

lemma float_round_53_upper:
  assumes "1 \<le> x" "x < 2"
  shows "float_round 53 x = of_int (round_half_even (x * 2 ^ 52)) / 2 ^ 52"
proof -
  have u: "(2::real) powr of_int (0 - int 53 + 1) = 1 / 2 ^ 52"
    using two_powr_neg [of 52] by simp
  have "float_round 53 x = of_int (round_half_even (x / (1 / 2 ^ 52))) * (1 / 2 ^ 52)"
    using assms by (intro float_round_in_binade_unit [OF _ _ _ u]) simp_all
  then show ?thesis by simp
qed

lemma float_round_53_lower:
  assumes "1 / 2 \<le> x" "x < 1"
  shows "float_round 53 x = of_int (round_half_even (x * 2 ^ 53)) / 2 ^ 53"
proof -
  have u: "(2::real) powr of_int (- 1 - int 53 + 1) = 1 / 2 ^ 53"
    using two_powr_neg [of 53] by simp
  have "float_round 53 x = of_int (round_half_even (x / (1 / 2 ^ 53))) * (1 / 2 ^ 53)"
    using assms by (intro float_round_in_binade_unit [OF _ _ _ u]) (simp_all add: powr_minus)
  then show ?thesis by simp
qed

lemma fr_a: "float_round 53 (3 / 2) = 3 / 2"
  by (simp add: float_round_53_upper round_half_even_def Let_def)

lemma fr_b: "float_round 53 (3 / 2 + 1 / 2 ^ 53) = 3 / 2"
  by (simp add: float_round_53_upper round_half_even_def Let_def)

lemma fr_c: "float_round 53 (3 / 4) = 3 / 4"
  by (simp add: float_round_53_lower round_half_even_def Let_def)

lemma fr_d: "float_round 53 (1 / 2) = 1 / 2"
  by (simp add: float_round_53_lower round_half_even_def Let_def)

lemma fr_e: "float_round 53 (1 / 2 + 1 / 2 ^ 53) = 1 / 2 + 1 / 2 ^ 53"
  by (simp add: float_round_53_lower round_half_even_def Let_def)

lemma nf_a: "normalize_similarity_float 53 (1 / 2) = 3 / 4"
proof -
  have "(1 / 2 + 1 :: real) = 3 / 2" by simp
  then show ?thesis
    by (simp only: normalize_similarity_float_def fr_a) (simp add: fr_c)
qed

lemma nf_b: "normalize_similarity_float 53 (1 / 2 + 1 / 2 ^ 53) = 3 / 4"
proof -
  have "(1 / 2 + 1 / 2 ^ 53 + 1 :: real) = 3 / 2 + 1 / 2 ^ 53" by simp
  then show ?thesis
    by (simp only: normalize_similarity_float_def fr_b) (simp add: fr_c)
qed

section \<open>A transaction id that is not in the table\<close>

lemma match_users_body_missing:
  "dict_get transactions transaction_id = None \<Longrightarrow>
   match_users_body tsr transactions users transaction_id = ([], 0)"
  by (simp add: match_users_body_def)

text \<open>
  C6: when the transaction id is not a key of the transactions table, \<open>match_users\<close>
  returns the empty list and the count 0. The function has no raising path: its result
  is a value for every id.
\<close>

theorem match_users_missing_id:
  "dict_get (fst (get_transactions fs s)) transaction_id = None \<Longrightarrow>
   fst (match_users tsr fs s transaction_id) = ([], 0)"
  by (cases "get_transactions fs s"; cases "get_users fs (snd (get_transactions fs s))")
     (simp add: match_users_def match_users_body_missing)

theorem match_users_missing_id_witness:
  "dict_get (fst (get_transactions sample_files initial_state)) ''invalid_id'' = None
   \<and> fst (match_users indel_ratio sample_files initial_state ''invalid_id'') = ([], 0)"
proof -
  have h: "dict_get (fst (get_transactions sample_files initial_state)) ''invalid_id'' = None"
    by (simp add: get_transactions_sample dict_get_def)
  show ?thesis using h match_users_missing_id [OF h, of indel_ratio] by simp
qed

section \<open>Normalising the cosine similarity\<close>

text \<open>
  C8 as stated fails in the arithmetic of the program: in binary64 the cosine
  similarities 0.5 and the next number above it, both representable, get the same score
  0.75, because the sum with 1 rounds to 1.5 for both.
\<close>

theorem normalize_similarity_collision_counterexample:
  "(1 / 2 :: real) < 1 / 2 + 1 / 2 ^ 53 \<and>
   float_round 53 (1 / 2) = 1 / 2 \<and>
   float_round 53 (1 / 2 + 1 / 2 ^ 53) = 1 / 2 + 1 / 2 ^ 53 \<and>
   normalize_similarity_float 53 (1 / 2) = 3 / 4 \<and>
   normalize_similarity_float 53 (1 / 2 + 1 / 2 ^ 53) = 3 / 4"
  by (simp only: fr_d fr_e nf_a nf_b) simp

text \<open>
  C8 amended: in floating point of any precision the map from the raw cosine similarity
  to the score never decreases, and in exact arithmetic it is strictly increasing.
\<close>

theorem normalize_similarity_monotone:
  "(0 < p \<and> c1 \<le> c2 \<longrightarrow>
      normalize_similarity_float p c1 \<le> normalize_similarity_float p c2) \<and>
   (c1 < c2 \<longrightarrow> normalize_similarity c1 < normalize_similarity c2)"
  by (simp add: normalize_similarity_float_mono normalize_similarity_def)

theorem normalize_similarity_monotone_witness:
  "(0 :: nat) < 53 \<and> (1 / 2 :: real) \<le> 1 / 2 + 1 / 2 ^ 53 \<and>
   normalize_similarity_float 53 (1 / 2) \<le> normalize_similarity_float 53 (1 / 2 + 1 / 2 ^ 53) \<and>
   (1 / 2 :: real) < 1 / 2 + 1 / 2 ^ 53 \<and>
   normalize_similarity (1 / 2) < normalize_similarity (1 / 2 + 1 / 2 ^ 53)"
proof -
  have h1: "(0 :: nat) < 53" by simp
  have h2: "(1 / 2 :: real) \<le> 1 / 2 + 1 / 2 ^ 53" by simp
  have h3: "(1 / 2 :: real) < 1 / 2 + 1 / 2 ^ 53" by simp
  from normalize_similarity_monotone [of 53 "1 / 2" "1 / 2 + 1 / 2 ^ 53"] h1 h2 h3
  have "normalize_similarity_float 53 (1 / 2) \<le> normalize_similarity_float 53 (1 / 2 + 1 / 2 ^ 53)"
    and "normalize_similarity (1 / 2) < normalize_similarity (1 / 2 + 1 / 2 ^ 53)"
    by blast+
  with h1 h2 h3 show ?thesis by blast
qed

section \<open>Invariants of the result lists\<close>

text \<open>
  C9: every score the loop stores in \<open>matches\<close> is at least 0.70, and every entry of
  the list \<open>match_users\<close> returns carries the rounding of the score stored for its id,
  which is at least 0.70 as well.
\<close>

theorem match_metric_at_least_070:
  "(\<forall>(k, s) \<in> set (match_loop tsr d t users []). 7 / 10 \<le> s) \<and>
   (\<forall>r \<in> set (fst (match_users_body tsr transactions users tid)).
      \<exists>raw s. dict_get transactions tid = Some raw \<and>
        (user_id r, s) \<in> set (match_loop tsr (lower (strip raw))
                                 (split (lower (strip raw))) users []) \<and>
        7 / 10 \<le> s \<and> match_metric r = round2 s \<and> 7 / 10 \<le> match_metric r)"
proof (intro conjI ballI)
  fix x assume a: "x \<in> set (match_loop tsr d t users [])"
  obtain k s where x: "x = (k, s)" by (cases x)
  from a have "7 / 10 \<le> s" unfolding x by (rule match_loop_ge)
  then show "case x of (k, s) \<Rightarrow> 7 / 10 \<le> s" unfolding x by (simp only: prod.case)
next
  fix r assume "r \<in> set (fst (match_users_body tsr transactions users tid))"
  from match_users_body_entry [OF this] obtain raw s where
    e: "dict_get transactions tid = Some raw"
       "(user_id r, s) \<in> set (match_loop tsr (lower (strip raw))
                                 (split (lower (strip raw))) users [])"
       "match_metric r = round2 s" by blast
  from e(2) have ge: "7 / 10 \<le> s" by (rule match_loop_ge)
  then have "round2 (7 / 10) \<le> round2 s" by (rule round2_mono)
  then have "7 / 10 \<le> match_metric r" by (simp add: round2_70 e(3))
  with e ge show "\<exists>raw s. dict_get transactions tid = Some raw \<and>
        (user_id r, s) \<in> set (match_loop tsr (lower (strip raw))
                                 (split (lower (strip raw))) users []) \<and>
        7 / 10 \<le> s \<and> match_metric r = round2 s \<and> 7 / 10 \<le> match_metric r"
    by blast
qed

theorem match_metric_at_least_070_witness:
  "(''u1'', 83 / 92) \<in> set (match_loop indel_ratio (lower (strip ''payment to liam johnson''))
       (split (lower (strip ''payment to liam johnson''))) [(''u1'', ''Liam Johnson'')] []) \<and>
   7 / 10 \<le> (83 / 92 :: real) \<and>
   fst (match_users_body indel_ratio [(''t1'', ''payment to liam johnson'')]
         [(''u1'', ''Liam Johnson'')] ''t1'') = [\<lparr>user_id = ''u1'', match_metric = 9 / 10\<rparr>] \<and>
   round2 (83 / 92) = 9 / 10"
proof -
  have mem: "(''u1'', 83 / 92) \<in> set (match_loop indel_ratio
       (lower (strip ''payment to liam johnson''))
       (split (lower (strip ''payment to liam johnson''))) [(''u1'', ''Liam Johnson'')] [])"
    by (simp only: match_loop_sample) simp
  from match_metric_at_least_070 [of indel_ratio "lower (strip ''payment to liam johnson'')"
       "split (lower (strip ''payment to liam johnson''))" "[(''u1'', ''Liam Johnson'')]"]
    mem
  have ge: "7 / 10 \<le> (83 / 92 :: real)" by blast
  have r: "round2 (83 / 92) = 9 / 10" by (simp add: round2_def round_half_even_def Let_def)
  have res: "fst (match_users_body indel_ratio [(''t1'', ''payment to liam johnson'')]
         [(''u1'', ''Liam Johnson'')] ''t1'') = [\<lparr>user_id = ''u1'', match_metric = 9 / 10\<rparr>]"
    by (simp add: match_users_body_sample)
  from mem ge res r show ?thesis by blast
qed

text \<open>
  C10: in the list \<open>match_users\<close> returns no user id occurs twice, and in the list
  \<open>search_transactions\<close> returns no transaction id occurs twice: both are read off a
  dictionary keyed by id.
\<close>

theorem result_ids_distinct:
  "distinct (map user_id (fst (match_users_body tsr transactions users tid))) \<and>
   (case search_transactions_body encode th documents q of
      Inl e \<Rightarrow> True
    | Inr (res, n) \<Rightarrow> distinct (map trans_id res))"
  by (auto simp: match_users_body_distinct split: sum.splits dest: search_body_distinct)

theorem result_ids_distinct_witness:
  "map user_id (fst (match_users_body indel_ratio [(''t1'', ''payment to liam johnson'')]
         [(''u1'', ''Liam Johnson'')] ''t1'')) = [''u1'']
   \<and> distinct (map user_id (fst (match_users_body indel_ratio
         [(''t1'', ''payment to liam johnson'')] [(''u1'', ''Liam Johnson'')] ''t1'')))
   \<and> (case search_transactions_body (\<lambda>t. [1, 0]) (3 / 10) [(''t1'', ''salary payment'')]
              ''salary'' of
        Inl e \<Rightarrow> True
      | Inr (res, n) \<Rightarrow> distinct (map trans_id res))"
  using result_ids_distinct [of indel_ratio "[(''t1'', ''payment to liam johnson'')]"
         "[(''u1'', ''Liam Johnson'')]" "''t1''" "\<lambda>t. [1, 0]" "3 / 10"
         "[(''t1'', ''salary payment'')]" "''salary''"]
  by (simp add: match_users_body_sample)

text \<open>
  C5: both result lists are in descending order of score, and every returned score is
  between 0 and 1 and a whole number of hundredths. For \<open>match_users\<close> this uses the
  contract of the library ratio, which is at most 100.
\<close>

theorem result_lists_sorted_bounded_rounded:
  assumes "\<forall>a b. tsr a b \<le> 100"
  shows "(sorted_wrt (\<ge>) (map match_metric (fst (match_users_body tsr transactions users tid))) \<and>
          (\<forall>r \<in> set (fst (match_users_body tsr transactions users tid)).
             0 \<le> match_metric r \<and> match_metric r \<le> 1 \<and>
             (\<exists>k::int. match_metric r = of_int k / 100))) \<and>
         (case search_transactions_body encode th documents q of
            Inl e \<Rightarrow> True
          | Inr (res, n) \<Rightarrow>
              sorted_wrt (\<ge>) (map embedding res) \<and>
              (\<forall>r \<in> set res. 0 \<le> embedding r \<and> embedding r \<le> 1 \<and>
                 (\<exists>k::int. embedding r = of_int k / 100)))"
proof -
  have users: "0 \<le> match_metric r \<and> match_metric r \<le> 1 \<and> (\<exists>k::int. match_metric r = of_int k / 100)"
    if "r \<in> set (fst (match_users_body tsr transactions users tid))" for r
  proof -
    from match_users_body_result [OF that] obtain raw uid name s where
      sc: "user_score tsr (lower (strip raw)) (split (lower (strip raw))) name = Some s"
      and r: "r = \<lparr>user_id = uid, match_metric = round2 s\<rparr>" by blast
    have "0 \<le> s" using user_score_ge [OF sc] by simp
    then have "round2 0 \<le> round2 s" by (rule round2_mono)
    moreover have "round2 s \<le> round2 1"
      using user_score_le [OF assms sc] by (rule round2_mono)
    ultimately show ?thesis using r round2_is_hundredth [of s]
      by (simp add: round2_0 round2_1)
  qed
  have docs: "0 \<le> embedding r \<and> embedding r \<le> 1 \<and> (\<exists>k::int. embedding r = of_int k / 100)"
    if "search_transactions_body encode th documents q = Inr (res, n)" "r \<in> set res" for res n r
  proof -
    from search_body_result [OF that] obtain t where
      len: "length (encode q) = length (encode t)"
      and e: "embedding r = round2 (similarity_score (encode q) (encode t))" by blast
    from similarity_score_bounds [OF len]
    have "round2 0 \<le> round2 (similarity_score (encode q) (encode t))"
      and "round2 (similarity_score (encode q) (encode t)) \<le> round2 1"
      by (simp_all add: round2_mono)
    then show ?thesis using e round2_is_hundredth [of "similarity_score (encode q) (encode t)"]
      by (simp add: round2_0 round2_1)
  qed
  show ?thesis
    using users docs match_users_body_sorted [of tsr transactions users tid]
    by (auto split: sum.splits dest: search_body_sorted)
qed

theorem result_lists_sorted_bounded_rounded_witness:
  "indel_ratio ''jon'' ''john'' \<le> 100 \<and>
   fst (match_users_body indel_ratio [(''t1'', ''payment to liam johnson'')]
          [(''u1'', ''Liam Johnson'')] ''t1'') = [\<lparr>user_id = ''u1'', match_metric = 9 / 10\<rparr>] \<and>
   sorted_wrt (\<ge>) (map match_metric [\<lparr>user_id = ''u1'', match_metric = 9 / 10\<rparr>]) \<and>
   0 \<le> match_metric \<lparr>user_id = ''u1'', match_metric = 9 / 10\<rparr> \<and>
   match_metric \<lparr>user_id = ''u1'', match_metric = 9 / 10\<rparr> \<le> 1 \<and>
   (\<exists>k::int. match_metric \<lparr>user_id = ''u1'', match_metric = 9 / 10\<rparr> = of_int k / 100) \<and>
   search_transactions_body sample_encode (3 / 10) [(''t1'', ''salary payment'')] ''salary''
     = Inr ([\<lparr>trans_id = ''t1'', embedding = 4 / 5\<rparr>], 1) \<and>
   sorted_wrt (\<ge>) (map embedding [\<lparr>trans_id = ''t1'', embedding = 4 / 5\<rparr>]) \<and>
   0 \<le> embedding \<lparr>trans_id = ''t1'', embedding = 4 / 5\<rparr> \<and>
   embedding \<lparr>trans_id = ''t1'', embedding = 4 / 5\<rparr> \<le> 1 \<and>
   (\<exists>k::int. embedding \<lparr>trans_id = ''t1'', embedding = 4 / 5\<rparr> = of_int k / 100)"
proof -
  have h: "\<forall>a b. indel_ratio a b \<le> 100" by (simp add: indel_ratio_le)
  show ?thesis
    using h result_lists_sorted_bounded_rounded [OF h, of "[(''t1'', ''payment to liam johnson'')]"
        "[(''u1'', ''Liam Johnson'')]" "''t1''" sample_encode "3 / 10"
        "[(''t1'', ''salary payment'')]" "''salary''"]
    by (simp add: match_users_body_sample search_sample_salary)
qed

section \<open>The empty transactions table\<close>

text \<open>
  C1 as stated fails: with no transaction loaded, \<open>search_transactions\<close> returns the
  count 0 although the query \<open>salary payment\<close> has two tokens.
\<close>

theorem empty_table_token_count_counterexample:
  "search_transactions_body sample_encode (3 / 10) [] ''salary payment'' = Inr ([], 0)
   \<and> length (split ''salary payment'') = 2"
  by (simp add: search_transactions_body_def split_def is_space_def)

text \<open>
  C1 amended: with an empty transactions table the result is the empty list and the count
  0, whatever the query; with a table that is not empty, a search that returns gives the
  number of whitespace-separated tokens of the query.
\<close>

theorem empty_table_returns_zero_tokens:
  "search_transactions_body encode th [] q = Inr ([], 0) \<and>
   (documents \<noteq> [] \<longrightarrow> search_transactions_body encode th documents q = Inr (res, n)
      \<longrightarrow> n = length (split q))"
  by (auto simp: search_body_tokens) (simp add: search_transactions_body_def)

theorem empty_table_returns_zero_tokens_witness:
  "search_transactions_body sample_encode (3 / 10) [] ''salary'' = Inr ([], 0) \<and>
   [(''t1'', ''salary payment'')] \<noteq> [] \<and>
   search_transactions_body sample_encode (3 / 10) [(''t1'', ''salary payment'')] ''salary''
     = Inr ([\<lparr>trans_id = ''t1'', embedding = 4 / 5\<rparr>], 1) \<and>
   1 = length (split ''salary'')"
  using empty_table_returns_zero_tokens [of sample_encode "3 / 10" "''salary''"
      "[(''t1'', ''salary payment'')]" "[\<lparr>trans_id = ''t1'', embedding = 4 / 5\<rparr>]" 1]
  by (simp add: search_sample_salary)

section \<open>The similarity threshold\<close>

text \<open>
  C4 as stated fails: with the threshold 0.3 the search returns a transaction whose score
  is 0.3. Its similarity before rounding is above the threshold, the rounded score that
  is returned is not.
\<close>

theorem returned_score_above_threshold_counterexample:
  "search_transactions_body sample_encode (3 / 10) [(''t2'', ''refund'')] ''salary''
     = Inr ([\<lparr>trans_id = ''t2'', embedding = 3 / 10\<rparr>], 1)
   \<and> \<not> (3 / 10 < embedding \<lparr>trans_id = ''t2'', embedding = 3 / 10\<rparr>)"
  by (simp add: search_sample_refund)

text \<open>
  C4 amended: every returned transaction belongs to the table, its similarity before
  rounding is strictly above the threshold, and the score returned is that similarity
  rounded to two decimals, which is at least the rounded threshold.
\<close>

theorem returned_similarity_above_threshold:
  assumes "search_transactions_body encode th documents q = Inr (res, n)"
  shows "\<forall>r \<in> set res. \<exists>t. (trans_id r, t) \<in> set documents \<and>
           th < similarity_score (encode q) (encode t) \<and>
           embedding r = round2 (similarity_score (encode q) (encode t)) \<and>
           round2 th \<le> embedding r"
proof
  fix r assume "r \<in> set res"
  from search_body_result [OF assms this] obtain t where
    t: "(trans_id r, t) \<in> set documents" "th < similarity_score (encode q) (encode t)"
       "embedding r = round2 (similarity_score (encode q) (encode t))" by blast
  from t(2) have "round2 th \<le> round2 (similarity_score (encode q) (encode t))"
    by (simp add: round2_mono)
  with t show "\<exists>t. (trans_id r, t) \<in> set documents \<and>
           th < similarity_score (encode q) (encode t) \<and>
           embedding r = round2 (similarity_score (encode q) (encode t)) \<and>
           round2 th \<le> embedding r" by auto
qed

theorem returned_similarity_above_threshold_witness:
  "search_transactions_body sample_encode (3 / 10) [(''t2'', ''refund'')] ''salary''
     = Inr ([\<lparr>trans_id = ''t2'', embedding = 3 / 10\<rparr>], 1) \<and>
   (''t2'', ''refund'') \<in> set [(''t2'', ''refund'')] \<and>
   3 / 10 < similarity_score (sample_encode ''salary'') (sample_encode ''refund'') \<and>
   embedding \<lparr>trans_id = ''t2'', embedding = 3 / 10\<rparr>
     = round2 (similarity_score (sample_encode ''salary'') (sample_encode ''refund'')) \<and>
   round2 (3 / 10) \<le> embedding \<lparr>trans_id = ''t2'', embedding = 3 / 10\<rparr>"
  using returned_similarity_above_threshold [OF search_sample_refund] search_sample_refund
  by simp

section \<open>The cascade of the matcher\<close>

text \<open>
  C2 as stated fails for a document text that is empty after normalisation: the
  specification's first stage gives the blank label the score 1.0, and \<open>match_users\<close>
  returns no entry at all.
\<close>

theorem cascade_blank_text_counterexample:
  "spec_cascade_score indel_ratio '' '' [] = Some 1 \<and>
   dict_get [(''t1'', [])] ''t1'' = Some [] \<and>
   fst (match_users_body indel_ratio [(''t1'', [])] [(''u1'', '' '')] ''t1'') = []"
  by (simp add: cascade_blank match_users_blank_sample dict_get_def)

text \<open>
  C2 amended: for a transaction whose normalised description is not empty, the score stored
  for every user of the table is the one the five-stage cascade of the specification gives,
  the returned \<open>match_metric\<close> is that score rounded to two decimals, and a user for whom
  no stage gives a score is absent from the list. For an empty normalised description the
  list is empty.
\<close>

theorem cascade_score_per_entity:
  assumes "distinct (map fst users)" "dict_get transactions tid = Some raw"
    "(uid, name) \<in> set users"
  shows "if lower (strip raw) = [] then fst (match_users_body tsr transactions users tid) = []
         else (case spec_cascade_score tsr name raw of
                 Some s \<Rightarrow>
                   (uid, s) \<in> set (match_loop tsr (lower (strip raw))
                                     (split (lower (strip raw))) users []) \<and>
                   \<lparr>user_id = uid, match_metric = round2 s\<rparr>
                     \<in> set (fst (match_users_body tsr transactions users tid))
               | None \<Rightarrow>
                   uid \<notin> set (map user_id (fst (match_users_body tsr transactions users tid))))"
proof (cases "lower (strip raw) = []")
  case True
  with match_users_body_blank [OF assms(2) True] show ?thesis by simp
next
  case False
  let ?d = "lower (strip raw)"
  let ?m = "match_loop tsr ?d (split ?d) users []"
  from assms(3) have ne: "users \<noteq> []" by auto
  have res: "fst (match_users_body tsr transactions users tid) =
           map (\<lambda>(uid, score). \<lparr>user_id = uid, match_metric = round2 score\<rparr>) (sorted_desc ?m)"
    by (rule match_users_body_found [OF assms(2) False ne])
  have ids: "set (map user_id (fst (match_users_body tsr transactions users tid))) = set (map fst ?m)"
    unfolding res user_match_ids by (simp add: sorted_desc_set)
  have mem: "case spec_cascade_score tsr name raw of
           Some s \<Rightarrow> (uid, s) \<in> set ?m
         | None \<Rightarrow> uid \<notin> set (map fst ?m)"
    using match_loop_member [OF assms(1) assms(3), of tsr ?d "split ?d"]
    by (simp only: user_score_cascade [OF False])
  show ?thesis
  proof (cases "spec_cascade_score tsr name raw")
    case None
    with mem ids False show ?thesis by simp
  next
    case (Some s)
    with mem have m: "(uid, s) \<in> set ?m" by simp
    then have "(uid, s) \<in> set (sorted_desc ?m)" by (simp add: sorted_desc_set)
    then have "\<lparr>user_id = uid, match_metric = round2 s\<rparr>
        \<in> set (fst (match_users_body tsr transactions users tid))"
      unfolding res by force
    with m Some False show ?thesis by simp
  qed
qed

theorem cascade_score_per_entity_witness:
  "distinct (map fst [(''u1'', ''Liam Johnson'')]) \<and>
   dict_get [(''t1'', ''payment to liam johnson'')] ''t1'' = Some ''payment to liam johnson'' \<and>
   (''u1'', ''Liam Johnson'') \<in> set [(''u1'', ''Liam Johnson'')] \<and>
   lower (strip ''payment to liam johnson'') \<noteq> [] \<and>
   spec_cascade_score indel_ratio ''Liam Johnson'' ''payment to liam johnson''
     = Some (85 / 100 + 1 / 10 * (12 / 23)) \<and>
   \<lparr>user_id = ''u1'', match_metric = round2 (85 / 100 + 1 / 10 * (12 / 23))\<rparr>
     \<in> set (fst (match_users_body indel_ratio [(''t1'', ''payment to liam johnson'')]
                 [(''u1'', ''Liam Johnson'')] ''t1''))"
proof -
  have h1: "distinct (map fst [(''u1'', ''Liam Johnson'')])" by simp
  have h2: "dict_get [(''t1'', ''payment to liam johnson'')] ''t1''
      = Some ''payment to liam johnson''" by (simp add: dict_get_def)
  have h3: "(''u1'', ''Liam Johnson'') \<in> set [(''u1'', ''Liam Johnson'')]" by simp
  have h4: "lower (strip ''payment to liam johnson'') \<noteq> []"
    by (simp add: lower_def strip_def is_space_def)
  from cascade_score_per_entity [OF h1 h2 h3, of indel_ratio]
  have "\<lparr>user_id = ''u1'', match_metric = round2 (85 / 100 + 1 / 10 * (12 / 23))\<rparr>
     \<in> set (fst (match_users_body indel_ratio [(''t1'', ''payment to liam johnson'')]
                 [(''u1'', ''Liam Johnson'')] ''t1''))"
    by (simp only: h4 if_False cascade_sample option.case)
  with h1 h2 h3 h4 cascade_sample show ?thesis by blast
qed

text \<open>
  C3 as stated fails: of two users whose normalised names both equal the description only
  one is first, and for an empty normalised description the list is empty.
\<close>

theorem exact_match_first_counterexample:
  "lower (strip ''bob'') = lower (strip ''bob'') \<and>
   fst (match_users_body indel_ratio [(''t1'', ''bob'')] [(''u1'', ''Bob''), (''u2'', ''bob'')] ''t1'')
     = [\<lparr>user_id = ''u1'', match_metric = 1\<rparr>, \<lparr>user_id = ''u2'', match_metric = 1\<rparr>] \<and>
   user_id (hd (fst (match_users_body indel_ratio [(''t1'', ''bob'')]
                  [(''u1'', ''Bob''), (''u2'', ''bob'')] ''t1''))) \<noteq> ''u2'' \<and>
   lower (strip '' '') = lower (strip []) \<and>
   fst (match_users_body indel_ratio [(''t1'', [])] [(''u1'', '' '')] ''t1'') = []"
  by (simp add: match_users_tie_sample match_users_blank_sample lower_def strip_def is_space_def)

text \<open>
  C3 amended: for a description that is not empty after normalisation, a user whose
  normalised name equals it is stored with the score exactly 1.0 and is returned with
  \<open>match_metric\<close> 1.0, and no entry before it in the list has a \<open>match_metric\<close>
  below 1.0. With the library ratio at most 100, the entries before it are exactly the
  users that come earlier in the table and also have the score 1.0, in the order of the
  table: it is first when no earlier user scores 1.0.
\<close>

theorem exact_match_scores_one:
  assumes "distinct (map fst users)" "dict_get transactions tid = Some raw"
    "users = before @ (uid, name) # after" "lower (strip name) = lower (strip raw)"
    "lower (strip raw) \<noteq> []"
  shows "user_score tsr (lower (strip raw)) (split (lower (strip raw))) name = Some 1 \<and>
         (\<exists>i < length (fst (match_users_body tsr transactions users tid)).
            fst (match_users_body tsr transactions users tid) ! i
              = \<lparr>user_id = uid, match_metric = 1\<rparr> \<and>
            (\<forall>j < i. 1 \<le> match_metric (fst (match_users_body tsr transactions users tid) ! j))) \<and>
         ((\<forall>a b. tsr a b \<le> 100) \<longrightarrow>
            (\<exists>rest. fst (match_users_body tsr transactions users tid) =
               map (\<lambda>(k, n). \<lparr>user_id = k, match_metric = 1\<rparr>)
                 (filter (\<lambda>(k, n). user_score tsr (lower (strip raw))
                            (split (lower (strip raw))) n = Some 1) before)
               @ \<lparr>user_id = uid, match_metric = 1\<rparr> # rest))"
proof -
  let ?d = "lower (strip raw)"
  let ?res = "fst (match_users_body tsr transactions users tid)"
  have sc: "user_score tsr ?d (split ?d) name = Some 1"
    by (rule user_score_exact [OF assms(4)])
  from assms(3) have mem: "(uid, name) \<in> set users" and ne: "users \<noteq> []" by simp_all
  from match_loop_member [OF assms(1) mem, of tsr ?d "split ?d"] sc
  have "(uid, 1) \<in> set (sorted_desc (match_loop tsr ?d (split ?d) users []))"
    by (simp add: sorted_desc_set)
  then have "\<lparr>user_id = uid, match_metric = round2 1\<rparr> \<in> set ?res"
    unfolding match_users_body_found [OF assms(2) assms(5) ne] by force
  then have "\<lparr>user_id = uid, match_metric = 1\<rparr> \<in> set ?res" by (simp only: round2_1)
  then obtain i where i: "i < length ?res" "?res ! i = \<lparr>user_id = uid, match_metric = 1\<rparr>"
    by (auto simp: in_set_conv_nth)
  have "1 \<le> match_metric (?res ! j)" if "j < i" for j
  proof -
    have "sorted_wrt (\<lambda>a b. match_metric a \<ge> match_metric b) ?res"
      using match_users_body_sorted [of tsr transactions users tid]
      by (simp only: sorted_wrt_map)
    from sorted_wrt_nth_less [OF this that i(1)] i(2) show ?thesis by simp
  qed
  with i have idx: "\<exists>i < length ?res. ?res ! i = \<lparr>user_id = uid, match_metric = 1\<rparr> \<and>
            (\<forall>j < i. 1 \<le> match_metric (?res ! j))" by blast
  have pos: "\<exists>rest. ?res =
               map (\<lambda>(k, n). \<lparr>user_id = k, match_metric = 1\<rparr>)
                 (filter (\<lambda>(k, n). user_score tsr ?d (split ?d) n = Some 1) before)
               @ \<lparr>user_id = uid, match_metric = 1\<rparr> # rest"
    if "\<forall>a b. tsr a b \<le> 100"
    by (rule exact_match_position [OF assms that])
  from sc idx pos show ?thesis by blast
qed

theorem exact_match_scores_one_witness:
  "distinct (map fst [(''u1'', ''Bob''), (''u2'', ''bob'')]) \<and>
   dict_get [(''t1'', ''bob'')] ''t1'' = Some ''bob'' \<and>
   [(''u1'', ''Bob''), (''u2'', ''bob'')] = [(''u1'', ''Bob'')] @ (''u2'', ''bob'') # [] \<and>
   lower (strip ''bob'') = lower (strip ''bob'') \<and>
   lower (strip ''bob'') \<noteq> [] \<and>
   (\<forall>a b. indel_ratio a b \<le> 100) \<and>
   user_score indel_ratio (lower (strip ''bob'')) (split (lower (strip ''bob''))) ''bob'' = Some 1 \<and>
   \<lparr>user_id = ''u2'', match_metric = 1\<rparr>
     \<in> set (fst (match_users_body indel_ratio [(''t1'', ''bob'')]
                 [(''u1'', ''Bob''), (''u2'', ''bob'')] ''t1'')) \<and>
   (\<exists>rest. fst (match_users_body indel_ratio [(''t1'', ''bob'')]
                 [(''u1'', ''Bob''), (''u2'', ''bob'')] ''t1'') =
      map (\<lambda>(k, n). \<lparr>user_id = k, match_metric = 1\<rparr>)
        (filter (\<lambda>(k, n). user_score indel_ratio (lower (strip ''bob''))
                   (split (lower (strip ''bob''))) n = Some 1) [(''u1'', ''Bob'')])
      @ \<lparr>user_id = ''u2'', match_metric = 1\<rparr> # rest)"
proof -
  have h1: "distinct (map fst [(''u1'', ''Bob''), (''u2'', ''bob'')])" by simp
  have h2: "dict_get [(''t1'', ''bob'')] ''t1'' = Some ''bob''" by (simp add: dict_get_def)
  have h3: "[(''u1'', ''Bob''), (''u2'', ''bob'')] = [(''u1'', ''Bob'')] @ (''u2'', ''bob'') # []"
    by simp
  have h4: "lower (strip ''bob'') = lower (strip ''bob'')" by simp
  have h5: "lower (strip ''bob'') \<noteq> []" by (simp add: lower_def strip_def is_space_def)
  have h6: "\<forall>a b. indel_ratio a b \<le> 100" by (simp add: indel_ratio_le)
  note t = exact_match_scores_one [OF h1 h2 h3 h4 h5, of indel_ratio]
  from t have c1: "user_score indel_ratio (lower (strip ''bob''))
      (split (lower (strip ''bob''))) ''bob'' = Some 1" by blast
  from t have c2: "\<lparr>user_id = ''u2'', match_metric = 1\<rparr>
     \<in> set (fst (match_users_body indel_ratio [(''t1'', ''bob'')]
                 [(''u1'', ''Bob''), (''u2'', ''bob'')] ''t1''))"
    by (metis nth_mem)
  from t h6 have c3: "\<exists>rest. fst (match_users_body indel_ratio [(''t1'', ''bob'')]
                 [(''u1'', ''Bob''), (''u2'', ''bob'')] ''t1'') =
      map (\<lambda>(k, n). \<lparr>user_id = k, match_metric = 1\<rparr>)
        (filter (\<lambda>(k, n). user_score indel_ratio (lower (strip ''bob''))
                   (split (lower (strip ''bob''))) n = Some 1) [(''u1'', ''Bob'')])
      @ \<lparr>user_id = ''u2'', match_metric = 1\<rparr> # rest"
    by blast
  from h1 h2 h3 h5 h6 c1 c2 c3 show ?thesis by blast
qed

section \<open>Repeated runs\<close>

text \<open>
  C7: a second run of \<open>match_users\<close> with the same transaction id, started in the state
  the first run leaves (the caches filled), returns what the first run returned, and so
  does a second run of \<open>search_transactions\<close> with the same query, threshold and model.
\<close>

theorem repeated_runs_agree:
  "fst (match_users tsr fs (snd (match_users tsr fs s tid)) tid) = fst (match_users tsr fs s tid) \<and>
   fst (search_transactions encode th fs (snd (search_transactions encode th fs s q)) q)
     = fst (search_transactions encode th fs s q)"
proof -
  let ?s1 = "snd (get_transactions fs s)"
  let ?s2 = "snd (get_users fs ?s1)"
  have t: "transactions_cache ?s2 = Some (fst (get_transactions fs s))"
    by (simp add: get_users_keeps_transactions transactions_cache_filled)
  have t2: "fst (get_transactions fs ?s2) = fst (get_transactions fs s)"
    by (rule get_transactions_from_cache [OF t])
  have "snd (get_transactions fs ?s2) = ?s2"
    using t by (simp add: get_transactions_def)
  moreover have "fst (get_users fs ?s2) = fst (get_users fs ?s1)"
    by (rule get_users_from_cache [OF users_cache_filled])
  ultimately have "fst (match_users tsr fs ?s2 tid) = fst (match_users tsr fs s tid)"
    by (simp add: match_users_fst t2)
  then have a: "fst (match_users tsr fs (snd (match_users tsr fs s tid)) tid)
      = fst (match_users tsr fs s tid)"
    by (simp only: match_users_snd)
  have "fst (get_transactions fs (snd (search_transactions encode th fs s q)))
      = fst (get_transactions fs s)"
    by (rule get_transactions_from_cache [OF search_transactions_snd_cache])
  then have b: "fst (search_transactions encode th fs (snd (search_transactions encode th fs s q)) q)
     = fst (search_transactions encode th fs s q)"
    by (simp add: search_transactions_fst)
  from a b show ?thesis ..
qed

theorem repeated_runs_agree_witness:
  "fst (match_users indel_ratio sample_files
          (snd (match_users indel_ratio sample_files initial_state ''t1'')) ''t1'')
     = fst (match_users indel_ratio sample_files initial_state ''t1'') \<and>
   fst (search_transactions sample_encode (3 / 10) sample_files
          (snd (search_transactions sample_encode (3 / 10) sample_files initial_state ''salary''))
          ''salary'')
     = fst (search_transactions sample_encode (3 / 10) sample_files initial_state ''salary'')"
  by (rule repeated_runs_agree)

end
